theory Spec2Isabelle
  imports Complex_Main "HOL-Library.Word" "HOL-Library.Log_Nat" "HOL-Library.Multiset"
begin

unbundle bit_operations_syntax

section \<open>Common vocabulary of the two programs\<close>

text \<open>
  Both programs work on \<^verbatim>\<open>vector<int>\<close>. An element is a 32-bit two's complement
  integer: \<open>+\<close> on \<^typ>\<open>32 word\<close> wraps around, comparisons of elements are the signed
  ones (\<open><s\<close>, read through \<^const>\<open>sint\<close>).

  Element counts, loop counters and strides are \<^verbatim>\<open>int\<close> in the source, and signed
  overflow is undefined in C++. Every function with index arithmetic is modelled in two
  layers. Its loops are written on \<^typ>\<open>nat\<close>. Its entry compares the count with the
  largest value for which no index expression of these loops (\<^verbatim>\<open>2 * stride\<close>,
  \<^verbatim>\<open>stride *= 2\<close>, \<^verbatim>\<open>i += step\<close>, \<^verbatim>\<open>temp_n + 1\<close>, \<^verbatim>\<open>n + num_threads - 1\<close>) leaves
  the range of \<^verbatim>\<open>int\<close>, and answers a failure beyond it; so the loops only ever run
  where \<^typ>\<open>nat\<close> and \<^verbatim>\<open>int\<close> agree. Where a parallel scan narrows the size of
  its argument (\<^verbatim>\<open>int n = arr.size()\<close>), the narrowing is written on \<^typ>\<open>32 word\<close>.
\<close>

type_synonym int32 = "32 word"


text \<open>\<^verbatim>\<open>std::max(a, b)\<close> on \<^verbatim>\<open>int\<close>: \<^verbatim>\<open>(a < b) ? b : a\<close>.\<close>

definition smax :: "int32 \<Rightarrow> int32 \<Rightarrow> int32" where
  "smax a b = (if a <s b then b else a)"

text \<open>
  The counter values of \<^verbatim>\<open>for (int i = i0; i < n; i += step)\<close>, in the order the
  sequential loop visits them. Every loop of the programs has a positive step; the test
  \<open>0 < step\<close> only makes the recursion total.
\<close>

function strided :: "nat \<Rightarrow> nat \<Rightarrow> nat \<Rightarrow> nat list" where
  "strided i n step = (if i < n \<and> 0 < step then i # strided (i + step) n step else [])"
  by pat_completeness auto
termination
  by (relation "measure (\<lambda>(i, n, step). n - i)") auto

declare strided.simps [simp del]

section \<open>\<^verbatim>\<open>parallel_maximum.cpp\<close>\<close>

text \<open>
  Every function of this file takes the array and its element count \<open>n\<close> as two
  arguments. Reading \<^verbatim>\<open>arr[i]\<close> beyond the end of the vector is undefined in C++, and
  so is an \<^verbatim>\<open>int\<close> expression whose value leaves the range of \<^verbatim>\<open>int\<close>; the models
  answer \<open>None\<close> where the source would do either. Method 1 and the sequential loop
  only count \<^verbatim>\<open>i++\<close> up to \<open>n\<close>, which cannot overflow.
\<close>





text \<open>
  Methods 2 and 4 receive the array by non-const reference and work on a copy. The state
  of such a call is the caller's array together with the working copy.
\<close>

record max_state =
  arr :: "int32 list"
  temp :: "int32 list"

text \<open>
  One iteration of the inner loop of methods 2 and 4:
  \<^verbatim>\<open>if (i + stride < n) temp[i] = max(temp[i], temp[i + stride]);\<close>
\<close>

definition tree_step :: "nat \<Rightarrow> nat \<Rightarrow> nat \<Rightarrow> max_state \<Rightarrow> max_state" where
  "tree_step n stride i s =
     (if i + stride < n
      then s\<lparr>temp := (temp s)[i := smax (temp s ! i) (temp s ! (i + stride))]\<rparr>
      else s)"

text \<open>
  One level: \<^verbatim>\<open>for (int i = 0; i < n; i += step)\<close> under \<^verbatim>\<open>#pragma omp parallel for\<close>,
  with the barrier at its end. The iterations are run in index order; that any other
  order gives the same array is lemma \<open>tree_level_any_order\<close> below.
\<close>

definition tree_level :: "nat \<Rightarrow> nat \<Rightarrow> nat \<Rightarrow> max_state \<Rightarrow> max_state" where
  "tree_level n stride step s = fold (tree_step n stride) (strided 0 n step) s"

text \<open>
  \<^verbatim>\<open>while (stride < n) { ...; stride *= 2; }\<close>. The stride starts at 1, so the test
  \<open>0 < stride\<close> is always true in the program; it makes the recursion total. The loop
  is only run for \<open>n \<le> 2 ^ 30\<close> (see \<open>parallel_max_tree_reduction\<close>): there every stride
  it is entered with is at most \<open>2 ^ 29\<close>, so \<^verbatim>\<open>2 * stride\<close> and \<^verbatim>\<open>stride *= 2\<close> are at
  most \<open>2 ^ 30\<close> and \<^verbatim>\<open>i += 2 * stride\<close> stays below \<open>2 ^ 31\<close>.
\<close>

function tree_loop :: "nat \<Rightarrow> nat \<Rightarrow> max_state \<Rightarrow> max_state" where
  "tree_loop n stride s =
     (if stride < n \<and> 0 < stride
      then tree_loop n (stride * 2) (tree_level n stride (2 * stride) s)
      else s)"
  by pat_completeness auto
termination
  by (relation "measure (\<lambda>(n, stride, s). n - stride)") auto

declare tree_loop.simps [simp del]

text \<open>
  Method 2. The result pairs the caller's array as the call leaves it with the returned
  value \<^verbatim>\<open>temp[0]\<close>, which does not exist for an empty vector. For \<open>2 ^ 30 < n\<close> the
  call is undefined: in the pass with the stride \<open>2 ^ 29\<close> at the latest, the increment
  \<^verbatim>\<open>i += 2 * stride\<close> takes \<open>i\<close> from \<open>2 ^ 30\<close>, which is below \<open>n\<close>, to \<open>2 ^ 31\<close>.
\<close>

definition parallel_max_tree_reduction :: "int32 list \<Rightarrow> nat \<Rightarrow> (int32 list \<times> int32) option" where
  "parallel_max_tree_reduction a n =
     (if length a < n \<or> a = [] \<or> 2 ^ 30 < int n then None
      else (let s = tree_loop n 1 \<lparr>arr = a, temp = a\<rparr>
            in Some (arr s, temp s ! 0)))"



text \<open>
  Method 4. The level count: \<^verbatim>\<open>while (temp_n > 1) { temp_n = (temp_n + 1) / 2; levels++; }\<close>
  The sum \<^verbatim>\<open>temp_n + 1\<close> overflows \<^verbatim>\<open>int\<close> for \<open>temp_n = 2 ^ 31 - 1\<close> only; the loop is
  only run for \<open>n \<le> 2 ^ 30\<close> (see \<open>parallel_max_explicit_barriers\<close>).
\<close>

function count_levels :: "nat \<Rightarrow> nat \<Rightarrow> nat" where
  "count_levels temp_n levels =
     (if 1 < temp_n then count_levels ((temp_n + 1) div 2) (levels + 1) else levels)"
  by pat_completeness auto
termination
  by (relation "measure (\<lambda>(temp_n, levels). temp_n)") auto

declare count_levels.simps [simp del]

text \<open>
  What a call of method 4 leaves behind: the caller's array, the number printed as
  "Number of synchronization steps", the rows printed after each level (the first
  \<^verbatim>\<open>min(n, 16)\<close> cells of the working array) and the returned value.
\<close>

record barrier_result =
  caller_arr :: "int32 list"
  sync_levels :: nat
  level_rows :: "int32 list list"
  max_value :: int32

text \<open>
  One pass of \<^verbatim>\<open>for (int level = 0; level < levels; level++)\<close>, with the row it prints:
  \<^verbatim>\<open>int stride = 1 << level; int step = stride * 2;\<close> and the loop of \<open>tree_level\<close>.
  It is only run for \<open>n \<le> 2 ^ 30\<close>, where \<open>level \<le> 29\<close>, so \<open>stride \<le> 2 ^ 29\<close>,
  \<open>step \<le> 2 ^ 30\<close> and \<^verbatim>\<open>i += step\<close> stays below \<open>2 ^ 31\<close>.
\<close>

definition barrier_level :: "nat \<Rightarrow> nat \<Rightarrow> max_state \<times> int32 list list \<Rightarrow> max_state \<times> int32 list list" where
  "barrier_level n level sr =
     (let stride = 2 ^ level;
          step = stride * 2;
          s = tree_level n stride step (fst sr)
      in (s, snd sr @ [take (min n 16) (temp s)]))"

text \<open>
  The whole of method 4. For \<open>2 ^ 30 < n\<close> the call is undefined: either the level count
  overflows (\<open>n = 2 ^ 31 - 1\<close>), or the count is 31 and, at level 29 at the latest,
  the increment \<^verbatim>\<open>i += step\<close> takes \<open>i\<close> from \<open>2 ^ 30\<close>, which is below \<open>n\<close>, to
  \<open>2 ^ 31\<close>.
\<close>

definition parallel_max_explicit_barriers :: "int32 list \<Rightarrow> nat \<Rightarrow> barrier_result option" where
  "parallel_max_explicit_barriers a n =
     (if length a < n \<or> a = [] \<or> 2 ^ 30 < int n then None
      else (let levels = count_levels n 0;
                sr = fold (barrier_level n) [0..<levels] (\<lparr>arr = a, temp = a\<rparr>, [])
            in Some \<lparr>caller_arr = arr (fst sr), sync_levels = levels,
                      level_rows = snd sr, max_value = temp (fst sr) ! 0\<rparr>))"

section \<open>\<^verbatim>\<open>prefix_sum_scan.cpp\<close>\<close>

text \<open>
  \<^verbatim>\<open>sequential_prefix_sum\<close>: \<^verbatim>\<open>result[0] = arr[0]\<close>, then
  \<^verbatim>\<open>result[i] = result[i-1] + arr[i]\<close> for \<open>i\<close> from 1. It is the reference the
  parallel scans are compared with, and the theorems below compare them on arrays of fewer
  than \<open>2 ^ 31\<close> elements, where its \<^verbatim>\<open>int n = arr.size()\<close> is the size and its
  counter \<^verbatim>\<open>i++\<close> stays below it.
\<close>

definition sequential_prefix_sum :: "int32 list \<Rightarrow> int32 list" where
  "sequential_prefix_sum a =
     (let n = length a;
          result = replicate n 0
      in if n = 0 then result
         else fold (\<lambda>i r. r[i := r ! (i - 1) + a ! i]) [1..<n] (result[0 := a ! 0]))"

text \<open>
  Method 1, the Blelloch scan. It prints the padded size, the number of levels and the
  number of synchronisation steps before it starts.
\<close>

record scan_report =
  padded :: nat
  levels :: nat
  sync_steps :: nat

text \<open>
  The source has no failure of its own. Two things can go wrong in its first lines:
  \<^item> \<^verbatim>\<open>(int)ceil(log2(n))\<close> for \<open>n \<le> 0\<close> converts an infinity or a NaN to \<^verbatim>\<open>int\<close>,
    which is undefined;
  \<^item> \<^verbatim>\<open>vector<int> temp(n, 0)\<close> with a negative \<open>n\<close> asks for more than
    \<^verbatim>\<open>max_size()\<close> elements, and the constructor throws \<^verbatim>\<open>std::length_error\<close>.
\<close>

datatype failure = Bad_log_cast | Length_error

text \<open>\<^verbatim>\<open>vector<int> temp(n, 0); for (i < original_n) temp[i] = arr[i];\<close>\<close>

definition pad_copy :: "int32 list \<Rightarrow> nat \<Rightarrow> nat \<Rightarrow> int32 list" where
  "pad_copy a original_n n = fold (\<lambda>i t. t[i := a ! i]) [0..<original_n] (replicate n 0)"

text \<open>Upsweep, one iteration: \<^verbatim>\<open>temp[i + stride - 1] += temp[i + offset];\<close>\<close>

definition upsweep_step :: "nat \<Rightarrow> nat \<Rightarrow> int32 list \<Rightarrow> int32 list" where
  "upsweep_step d i t =
     (let stride = 2 ^ (d + 1);
          offset = 2 ^ d - 1
      in t[i + stride - 1 := t ! (i + stride - 1) + t ! (i + offset)])"

definition upsweep_level :: "nat \<Rightarrow> nat \<Rightarrow> int32 list \<Rightarrow> int32 list" where
  "upsweep_level n d t = fold (upsweep_step d) (strided 0 n (2 ^ (d + 1))) t"

text \<open>\<^verbatim>\<open>for (int d = 0; d < log_n; d++)\<close>\<close>

definition upsweep :: "nat \<Rightarrow> nat \<Rightarrow> int32 list \<Rightarrow> int32 list" where
  "upsweep n log_n t = fold (upsweep_level n) [0..<log_n] t"

text \<open>
  Downsweep, one iteration:
  \<^verbatim>\<open>int t = temp[i + offset]; temp[i + offset] = temp[i + stride - 1]; temp[i + stride - 1] += t;\<close>
\<close>

definition downsweep_step :: "nat \<Rightarrow> nat \<Rightarrow> int32 list \<Rightarrow> int32 list" where
  "downsweep_step d i t =
     (let stride = 2 ^ (d + 1);
          offset = 2 ^ d - 1;
          x = t ! (i + offset);
          t1 = t[i + offset := t ! (i + stride - 1)]
      in t1[i + stride - 1 := t1 ! (i + stride - 1) + x])"

definition downsweep_level :: "nat \<Rightarrow> nat \<Rightarrow> int32 list \<Rightarrow> int32 list" where
  "downsweep_level n d t = fold (downsweep_step d) (strided 0 n (2 ^ (d + 1))) t"

text \<open>\<^verbatim>\<open>for (int d = log_n - 1; d >= 0; d--)\<close>\<close>

definition downsweep :: "nat \<Rightarrow> nat \<Rightarrow> int32 list \<Rightarrow> int32 list" where
  "downsweep n log_n t = fold (downsweep_level n) (rev [0..<log_n]) t"

text \<open>\<^verbatim>\<open>vector<int> result(original_n); for (i < original_n) result[i] = temp[i] + arr[i];\<close>\<close>

definition to_inclusive :: "int32 list \<Rightarrow> nat \<Rightarrow> int32 list \<Rightarrow> int32 list" where
  "to_inclusive a original_n t =
     fold (\<lambda>i result. result[i := t ! i + a ! i]) [0..<original_n] (replicate original_n 0)"

text \<open>
  The whole of method 1. \<^verbatim>\<open>int n = arr.size()\<close> keeps the low 32 bits of the size;
  \<^verbatim>\<open>(int)ceil(log2(n))\<close> is the exact \<open>\<lceil>log\<^sub>2 n\<rceil>\<close> for every positive \<^verbatim>\<open>int\<close>
  (\<^const>\<open>ceillog2\<close>); \<^verbatim>\<open>1 << log_n\<close> is a shift of a 32-bit value. Once the padded size
  is known to be a non-negative \<^verbatim>\<open>int\<close>, the shifts \<^verbatim>\<open>1 << (d + 1)\<close> of the levels
  are below it and are written as powers of two.
\<close>

definition parallel_prefix_sum_blelloch :: "int32 list \<Rightarrow> failure + scan_report \<times> int32 list" where
  "parallel_prefix_sum_blelloch a =
     (let original_n = sint (word_of_nat (length a) :: int32)
      in if original_n \<le> 0 then Inl Bad_log_cast
         else (let log_n = ceillog2 (nat original_n);
                   n = sint (push_bit log_n (1 :: int32))
               in if n < 0 then Inl Length_error
                  else (let t = pad_copy a (nat original_n) (nat n);
                            report = \<lparr>padded = nat n, levels = log_n, sync_steps = 2 * log_n\<rparr>;
                            t = upsweep (nat n) log_n t;
                            t = t[nat n - 1 := 0];
                            t = downsweep (nat n) log_n t
                        in Inr (report, to_inclusive a (nat original_n) t))))"

text \<open>
  Method 3, the block decomposition. \<open>num_threads\<close> is the value of
  \<^verbatim>\<open>omp_get_max_threads()\<close>; each of the two parallel regions runs one thread for each
  \<open>tid\<close> below it. The workers are only run for \<open>n + num_threads < 2 ^ 31\<close> (see
  \<open>parallel_prefix_sum_recursive\<close>), where \<^verbatim>\<open>n + num_threads - 1\<close>,
  \<^verbatim>\<open>tid * chunk_size\<close> and \<^verbatim>\<open>start + chunk_size\<close> stay in the range of \<^verbatim>\<open>int\<close>.
  Phase 1, thread \<open>tid\<close>, on the pair of \<^verbatim>\<open>result\<close> and \<^verbatim>\<open>block_sums\<close>:
\<close>

definition block_scan_worker :: "int32 list \<Rightarrow> nat \<Rightarrow> nat \<Rightarrow> nat \<Rightarrow> int32 list \<times> int32 list \<Rightarrow> int32 list \<times> int32 list" where
  "block_scan_worker a n num_threads tid rb =
     (let chunk_size = (n + num_threads - 1) div num_threads;
          start = tid * chunk_size;
          end = min (start + chunk_size) n
      in if start < end
         then (let result = (fst rb)[start := a ! start];
                   local_sum = a ! start;
                   rl = fold (\<lambda>i (r, l). (r[i := l + a ! i], l + a ! i)) [start + 1..<end] (result, local_sum)
               in (fst rl, (snd rb)[tid := snd rl]))
         else rb)"

text \<open>
  Phase 2:
  \<^verbatim>\<open>block_prefix[0] = 0; for (i = 1; i < num_threads; i++) block_prefix[i] = block_prefix[i-1] + block_sums[i-1];\<close>
\<close>

definition block_prefix_of :: "nat \<Rightarrow> int32 list \<Rightarrow> int32 list" where
  "block_prefix_of num_threads block_sums =
     fold (\<lambda>i bp. bp[i := bp ! (i - 1) + block_sums ! (i - 1)]) [1..<num_threads]
       ((replicate num_threads 0)[0 := 0])"

text \<open>Phase 3, thread \<open>tid\<close>: \<^verbatim>\<open>result[i] += block_prefix[tid]\<close> over its block.\<close>

definition block_add_worker :: "nat \<Rightarrow> nat \<Rightarrow> int32 list \<Rightarrow> nat \<Rightarrow> int32 list \<Rightarrow> int32 list" where
  "block_add_worker n num_threads block_prefix tid result =
     (let chunk_size = (n + num_threads - 1) div num_threads;
          start = tid * chunk_size;
          end = min (start + chunk_size) n
      in fold (\<lambda>i r. r[i := r ! i + block_prefix ! tid]) [start..<end] result)"

text \<open>
  The whole of method 3. The model answers \<open>None\<close> where the source returns no array:
  \<^item> \<^verbatim>\<open>int n = arr.size()\<close> keeps the low 32 bits of the size, and
    \<^verbatim>\<open>vector<int> result(n)\<close> with a negative \<open>n\<close> throws \<^verbatim>\<open>std::length_error\<close>;
  \<^item> OpenMP never reports less than one thread; for 0 the write
    \<^verbatim>\<open>block_prefix[0] = 0\<close> would be out of range;
  \<^item> every thread computes \<^verbatim>\<open>(n + num_threads - 1) / num_threads\<close>, whose first sum
    overflows \<^verbatim>\<open>int\<close> exactly when \<open>2 ^ 31 \<le> n + num_threads\<close>.

  The test \<^verbatim>\<open>if (n == 0) return result;\<close> comes before the thread count is read.
\<close>

definition parallel_prefix_sum_recursive :: "nat \<Rightarrow> int32 list \<Rightarrow> int32 list option" where
  "parallel_prefix_sum_recursive num_threads a =
     (let size_n = sint (word_of_nat (length a) :: int32)
      in if size_n < 0 then None
         else (let n = nat size_n;
                   result = replicate n 0
               in if n = 0 then Some result
                  else if num_threads = 0 \<or> 2 ^ 31 \<le> int n + int num_threads then None
                  else (let rb = fold (block_scan_worker a n num_threads) [0..<num_threads]
                                   (result, replicate num_threads 0);
                            block_prefix = block_prefix_of num_threads (snd rb)
                        in Some (fold (block_add_worker n num_threads block_prefix)
                                   [0..<num_threads] (fst rb)))))"

text \<open>
  \<^verbatim>\<open>verify_arrays\<close>. The loop returns at the first mismatch and prints its index with the
  two values; the model returns what was printed next to the verdict.
\<close>

function verify_loop :: "int32 list \<Rightarrow> int32 list \<Rightarrow> nat \<Rightarrow> bool \<times> (nat \<times> int32 \<times> int32) option" where
  "verify_loop a b i =
     (if i < length a
      then (if a ! i \<noteq> b ! i then (False, Some (i, a ! i, b ! i)) else verify_loop a b (i + 1))
      else (True, None))"
  by pat_completeness auto
termination
  by (relation "measure (\<lambda>(a, b, i). length a - i)") auto

declare verify_loop.simps [simp del]

definition verify_arrays :: "int32 list \<Rightarrow> int32 list \<Rightarrow> bool \<times> (nat \<times> int32 \<times> int32) option" where
  "verify_arrays a b = (if length a \<noteq> length b then (False, None) else verify_loop a b 0)"

section \<open>Vocabulary of the properties\<close>


definition is_blockmax :: "int32 \<Rightarrow> int32 set \<Rightarrow> bool" where
  "is_blockmax v X \<longleftrightarrow> v \<in> X \<and> (\<forall>x\<in>X. sint x \<le> sint v)"

text \<open>The effect of \<^const>\<open>tree_step\<close> on the working copy alone.\<close>

definition temp_step :: "nat \<Rightarrow> nat \<Rightarrow> nat \<Rightarrow> int32 list \<Rightarrow> int32 list" where
  "temp_step n stride i t = (if i + stride < n then t[i := smax (t ! i) (t ! (i + stride))] else t)"

text \<open>
  The invariant of the tree reduction before the level with stride \<open>s\<close>: every cell whose
  index is a multiple of \<open>s\<close> holds a greatest element of the \<open>s\<close> cells of the input
  that start there (fewer at the end of the array).
\<close>

definition tree_inv :: "int32 list \<Rightarrow> nat \<Rightarrow> nat \<Rightarrow> int32 list \<Rightarrow> bool" where
  "tree_inv a n s t \<longleftrightarrow>
     length t = length a \<and> (\<forall>i<n. s dvd i \<longrightarrow> is_blockmax (t ! i) (nth a ` {i..<min (i + s) n}))"

text \<open>The sum of the cells \<open>i, \<dots>, j - 1\<close> of an array, in 32-bit arithmetic.\<close>

definition range_sum :: "int32 list \<Rightarrow> nat \<Rightarrow> nat \<Rightarrow> int32" where
  "range_sum t i j = (\<Sum>k = i..<j. t ! k)"

text \<open>
  The block of thread \<open>tid\<close> in the chunked engines, as the three lines
  \<^verbatim>\<open>chunk_size = (n + num_threads - 1) / num_threads; start = tid * chunk_size; end = min(start + chunk_size, n)\<close>
  compute it.
\<close>

definition chunk_size :: "nat \<Rightarrow> nat \<Rightarrow> nat" where
  "chunk_size n T = (n + T - 1) div T"



text \<open>
  The invariants of the Blelloch scan over the padded buffer \<open>t0\<close>. A cell \<open>j\<close> is the
  last cell of a block of \<open>2 ^ h\<close> cells when \<open>2 ^ h\<close> divides \<open>j + 1\<close>.

  Before upsweep level \<open>d\<close>: a cell that ends a block of \<open>2 ^ d\<close> cells holds the sum of
  that block; a cell whose largest block has \<open>2 ^ h\<close> cells, \<open>h < d\<close>, holds the sum of
  that block.

  After the downsweep levels above \<open>d\<close> (all of them for \<open>d = 0\<close>): a cell that ends a
  block of \<open>2 ^ d\<close> cells holds the sum of everything before the block; the other cells
  still hold what the upsweep left.
\<close>

definition up_inv :: "int32 list \<Rightarrow> nat \<Rightarrow> int32 list \<Rightarrow> bool" where
  "up_inv t0 d t \<longleftrightarrow>
     length t = length t0 \<and>
     (\<forall>j<length t0. \<forall>h\<le>d. 2 ^ h dvd Suc j \<and> (h = d \<or> \<not> 2 ^ Suc h dvd Suc j) \<longrightarrow>
        t ! j = range_sum t0 (Suc j - 2 ^ h) (Suc j))"

definition down_inv :: "int32 list \<Rightarrow> nat \<Rightarrow> int32 list \<Rightarrow> bool" where
  "down_inv t0 d t \<longleftrightarrow>
     length t = length t0 \<and>
     (\<forall>j<length t0.
        (2 ^ d dvd Suc j \<longrightarrow> t ! j = range_sum t0 0 (Suc j - 2 ^ d)) \<and>
        (\<forall>h<d. 2 ^ h dvd Suc j \<and> \<not> 2 ^ Suc h dvd Suc j \<longrightarrow>
           t ! j = range_sum t0 (Suc j - 2 ^ h) (Suc j)))"

text \<open>
  The cells one iteration of a leveled loop reads or writes: iteration \<open>i\<close> of the tree
  reduction at stride \<open>s\<close> touches \<^verbatim>\<open>temp[i]\<close> and \<^verbatim>\<open>temp[i + s]\<close>; iteration \<open>i\<close> of
  an upsweep or downsweep level \<open>d\<close> touches \<^verbatim>\<open>temp[i + offset]\<close> and
  \<^verbatim>\<open>temp[i + stride - 1]\<close>.
\<close>

definition tree_touched :: "nat \<Rightarrow> nat \<Rightarrow> nat set" where
  "tree_touched stride i = {i, i + stride}"

definition scan_touched :: "nat \<Rightarrow> nat \<Rightarrow> nat set" where
  "scan_touched d i = {i + (2 ^ d - 1), i + 2 ^ (d + 1) - 1}"

section \<open>Loops over strided indices\<close>

text \<open>The counter values of a strided loop from 0 are the multiples of the step below the bound, each once.\<close>

lemma strided_set_aux:
  "0 < st \<Longrightarrow> st dvd i \<Longrightarrow> set (strided i n st) = {j. i \<le> j \<and> j < n \<and> st dvd j}"
proof (induction i n st rule: strided.induct)
  case (1 i n st)
  show ?case
  proof (cases "i < n")
    case False
    then have "strided i n st = []" by (subst strided.simps) simp
    then show ?thesis using False by simp
  next
    case True
    have d: "st dvd (i + st)" using "1.prems" by simp
    have ih: "set (strided (i + st) n st) = {j. i + st \<le> j \<and> j < n \<and> st dvd j}"
      using "1.IH" True "1.prems" d by simp
    have far: "i + st \<le> j" if h: "st dvd j" "i \<le> j" "j \<noteq> i" for j
    proof -
      obtain a where a: "i = st * a" using "1.prems"(2) unfolding dvd_def by blast
      obtain b where b: "j = st * b" using h(1) unfolding dvd_def by blast
      have "st * a < st * b" using h(2,3) a b by simp
      then have "a < b" by simp
      then have "Suc a \<le> b" by simp
      then have "st * Suc a \<le> st * b" by (rule mult_le_mono2)
      then show ?thesis using a b by simp
    qed
    have eq: "strided i n st = i # strided (i + st) n st"
      using True "1.prems"(1) by (subst strided.simps) simp
    have "insert i {j. i + st \<le> j \<and> j < n \<and> st dvd j} = {j. i \<le> j \<and> j < n \<and> st dvd j}"
    proof (rule set_eqI)
      fix j
      show "j \<in> insert i {j. i + st \<le> j \<and> j < n \<and> st dvd j} \<longleftrightarrow> j \<in> {j. i \<le> j \<and> j < n \<and> st dvd j}"
        using far [of j] True "1.prems"(2) by (cases "j = i") auto
    qed
    then show ?thesis using eq ih by simp
  qed
qed

lemma set_strided: "0 < st \<Longrightarrow> set (strided 0 n st) = {j. j < n \<and> st dvd j}"
  by (simp add: strided_set_aux)

lemma strided_lower: "j \<in> set (strided i n st) \<Longrightarrow> i \<le> j"
proof (induction i n st rule: strided.induct)
  case (1 i n st)
  show ?case
  proof (cases "i < n \<and> 0 < st")
    case True
    then have eq: "strided i n st = i # strided (i + st) n st" by (subst strided.simps) simp
    show ?thesis using "1.IH" [OF True] "1.prems" unfolding eq by auto
  next
    case False
    then have "strided i n st = []" by (subst strided.simps) simp
    then show ?thesis using "1.prems" by simp
  qed
qed

lemma distinct_strided: "distinct (strided i n st)"
proof (induction i n st rule: strided.induct)
  case (1 i n st)
  show ?case
  proof (cases "i < n \<and> 0 < st")
    case True
    then have "i \<notin> set (strided (i + st) n st)"
      using strided_lower [of i "i + st" n st] by auto
    moreover have "strided i n st = i # strided (i + st) n st" using True by (subst strided.simps) simp
    ultimately show ?thesis using True "1.IH" by simp
  next
    case False
    then have "strided i n st = []" by (subst strided.simps) simp
    then show ?thesis by simp
  qed
qed

text \<open>
  A level of a leveled loop cuts the array into blocks of \<open>st\<close> cells; the iteration
  with counter \<open>i\<close> owns the block that starts at \<open>i\<close>. If every iteration changes
  only its own block and what it writes depends only on its own block, then running the
  iterations of any list of distinct block starts, in any order, gives in each cell what
  the cell's own iteration computes from the array as it was before the level.
\<close>

lemma block_start_iff:
  fixes st i j :: nat
  assumes "0 < st" "st dvd i"
  shows "(i \<le> j \<and> j < i + st) \<longleftrightarrow> (j div st) * st = i"
proof
  assume h: "i \<le> j \<and> j < i + st"
  obtain a :: nat where a: "i = st * a" using assms(2) unfolding dvd_def by blast
  have "st * a \<le> j" "j < st * Suc a" using h a by simp_all
  then have "j div st = a"
    using assms(1) by (intro div_nat_eqI) (simp_all add: mult.commute)
  then show "(j div st) * st = i" using a by simp
next
  assume h: "(j div st) * st = i"
  have "j = (j div st) * st + j mod st" by simp
  moreover have "j mod st < st" using assms(1) by simp
  ultimately show "i \<le> j \<and> j < i + st" using h by linarith
qed

lemma fold_block_local:
  fixes g :: "nat \<Rightarrow> 'a list \<Rightarrow> 'a list"
  assumes len: "\<And>i t. length (g i t) = length t"
    and frame: "\<And>i t j. st dvd i \<Longrightarrow> length t = L \<Longrightarrow> j < L \<Longrightarrow>
                  \<not> (i \<le> j \<and> j < i + st) \<Longrightarrow> g i t ! j = t ! j"
    and loc: "\<And>i t t' j. st dvd i \<Longrightarrow> length t = L \<Longrightarrow> length t' = L \<Longrightarrow>
                (\<And>k. i \<le> k \<Longrightarrow> k < i + st \<Longrightarrow> k < L \<Longrightarrow> t ! k = t' ! k) \<Longrightarrow>
                i \<le> j \<Longrightarrow> j < i + st \<Longrightarrow> j < L \<Longrightarrow> g i t ! j = g i t' ! j"
    and pos: "0 < st"
  shows "distinct is \<Longrightarrow> (\<forall>i\<in>set is. st dvd i) \<Longrightarrow> length t = L \<Longrightarrow> j < L \<Longrightarrow>
         length (fold g is t) = L \<and>
         fold g is t ! j = (if (j div st) * st \<in> set is then g ((j div st) * st) t ! j else t ! j)"
proof (induction "is" arbitrary: t)
  case Nil
  then show ?case by simp
next
  case (Cons i "is")
  let ?b = "(j div st) * st"
  have di: "st dvd i" using Cons.prems by simp
  have gl: "length (g i t) = L" using Cons.prems len by simp
  have ih: "length (fold g is (g i t)) = L \<and> fold g is (g i t) ! j =
            (if ?b \<in> set is then g ?b (g i t) ! j else g i t ! j)"
    using Cons.IH [of "g i t"] Cons.prems gl by simp
  have db: "st dvd ?b" by simp
  have inb: "?b \<le> j \<and> j < ?b + st" using block_start_iff [OF pos db, of j] by simp
  show ?case
  proof (cases "?b \<in> set is")
    case True
    then have ne: "?b \<noteq> i" using Cons.prems by auto
    have agree: "g i t ! k = t ! k" if h: "?b \<le> k" "k < ?b + st" "k < L" for k
    proof -
      have "(k div st) * st = ?b" using block_start_iff [OF pos db, of k] h by blast
      then have "(k div st) * st \<noteq> i" using ne by metis
      then have "\<not> (i \<le> k \<and> k < i + st)" using block_start_iff [OF pos di, of k] by blast
      then show ?thesis using frame [OF di, of t k] h Cons.prems by simp
    qed
    have "g ?b (g i t) ! j = g ?b t ! j"
      using loc [OF db gl, of t j] agree inb Cons.prems by simp
    then show ?thesis using ih True by simp
  next
    case False
    show ?thesis
    proof (cases "?b = i")
      case True
      then show ?thesis using ih False by simp
    next
      case ne: False
      then have "\<not> (i \<le> j \<and> j < i + st)" using block_start_iff [OF pos di, of j] by simp
      then have "g i t ! j = t ! j" using frame [OF di, of t j] Cons.prems by simp
      then show ?thesis using ih False ne by simp
    qed
  qed
qed

section \<open>Signed maxima\<close>

lemma sint_smax: "sint (smax a b) = max (sint a) (sint b)"
  by (simp add: smax_def word_sless_alt)

lemma smax_cases: "smax a b = a \<or> smax a b = b"
  by (simp add: smax_def)














section \<open>The tree reduction\<close>

lemma temp_tree_step: "temp (tree_step n stride i s) = temp_step n stride i (temp s)"
  by (simp add: tree_step_def temp_step_def)

lemma arr_tree_step: "arr (tree_step n stride i s) = arr s"
  by (simp add: tree_step_def)

lemma temp_fold_tree_step:
  "temp (fold (tree_step n stride) is s) = fold (temp_step n stride) is (temp s)"
  by (induction "is" arbitrary: s) (simp_all add: temp_tree_step)

lemma arr_fold_tree_step: "arr (fold (tree_step n stride) is s) = arr s"
  by (induction "is" arbitrary: s) (simp_all add: arr_tree_step)

lemma arr_tree_level: "arr (tree_level n stride step s) = arr s"
  by (simp add: tree_level_def arr_fold_tree_step)

lemma length_temp_step: "length (temp_step n stride i t) = length t"
  by (simp add: temp_step_def)

lemma length_fold_temp_step: "length (fold (temp_step n stride) is t) = length t"
  by (induction "is" arbitrary: t) (simp_all add: length_temp_step)

lemma temp_step_fold_nth:
  assumes pos: "0 < stride" and n: "n \<le> length t"
    and d: "distinct is" and m: "\<forall>i\<in>set is. (2 * stride) dvd i" and j: "j < length t"
  shows "length (fold (temp_step n stride) is t) = length t \<and>
         fold (temp_step n stride) is t ! j =
           (if (j div (2 * stride)) * (2 * stride) \<in> set is
            then temp_step n stride ((j div (2 * stride)) * (2 * stride)) t ! j else t ! j)"
proof (rule fold_block_local [where g = "temp_step n stride" and st = "2 * stride" and L = "length t"])
  show "length (temp_step n stride i u) = length u" for i u
    by (rule length_temp_step)
  show "temp_step n stride i u ! k = u ! k"
    if "\<not> (i \<le> k \<and> k < i + 2 * stride)" for i u k
    using that pos by (auto simp: temp_step_def)
  show "temp_step n stride i u ! k = temp_step n stride i u' ! k"
    if lu: "length u = length t" and lu': "length u' = length t"
      and ag: "\<And>q. i \<le> q \<Longrightarrow> q < i + 2 * stride \<Longrightarrow> q < length t \<Longrightarrow> u ! q = u' ! q"
      and k: "i \<le> k" "k < i + 2 * stride" "k < length t" for i u u' k
  proof (cases "i + stride < n")
    case True
    have "u ! i = u' ! i" using ag [of i] k pos by simp
    moreover have "u ! (i + stride) = u' ! (i + stride)" using ag [of "i + stride"] True n pos by simp
    moreover have "u ! k = u' ! k" using ag [of k] k by simp
    ultimately show ?thesis using True lu lu' k by (simp add: temp_step_def nth_list_update)
  next
    case False
    then show ?thesis using ag [of k] k by (simp add: temp_step_def)
  qed
  show "0 < 2 * stride" using pos by simp
qed (use d m j in simp_all)

lemma temp_level_nth:
  assumes pos: "0 < stride" and n: "n \<le> length t" and j: "j < length t"
  shows "length (fold (temp_step n stride) (strided 0 n (2 * stride)) t) = length t \<and>
         fold (temp_step n stride) (strided 0 n (2 * stride)) t ! j =
           (if (2 * stride) dvd j \<and> j + stride < n then smax (t ! j) (t ! (j + stride)) else t ! j)"
proof -
  let ?st = "2 * stride"
  let ?b = "(j div ?st) * ?st"
  have st: "0 < ?st" using pos by simp
  have set: "set (strided 0 n ?st) = {i. i < n \<and> ?st dvd i}" by (rule set_strided [OF st])
  have base: "length (fold (temp_step n stride) (strided 0 n ?st) t) = length t \<and>
         fold (temp_step n stride) (strided 0 n ?st) t ! j =
           (if ?b \<in> set (strided 0 n ?st) then temp_step n stride ?b t ! j else t ! j)"
    by (rule temp_step_fold_nth [OF pos n distinct_strided _ j]) (simp add: set)
  have bj: "?b \<le> j" by simp
  have eqb: "?b = j \<longleftrightarrow> ?st dvd j" by (metis dvd_div_mult_self dvd_triv_right)
  have "(if ?b \<in> set (strided 0 n ?st) then temp_step n stride ?b t ! j else t ! j) =
        (if ?st dvd j \<and> j + stride < n then smax (t ! j) (t ! (j + stride)) else t ! j)"
  proof (cases "?st dvd j \<and> j + stride < n")
    case True
    then have "?b = j" using eqb by simp
    then show ?thesis using True set j by (simp add: temp_step_def)
  next
    case False
    show ?thesis
    proof (cases "?b = j")
      case True
      then show ?thesis using False eqb by (simp add: temp_step_def)
    next
      case ne: False
      then show ?thesis using False eqb by (simp add: temp_step_def nth_list_update)
    qed
  qed
  then show ?thesis using base by simp
qed


lemma is_blockmax_single: "is_blockmax x {x}"
  by (simp add: is_blockmax_def)

lemma is_blockmax_smax:
  assumes "is_blockmax v X" "is_blockmax w Y"
  shows "is_blockmax (smax v w) (X \<union> Y)"
proof -
  have c: "smax v w = v \<or> smax v w = w" by (rule smax_cases)
  have s: "sint (smax v w) = max (sint v) (sint w)" by (rule sint_smax)
  show ?thesis using assms c s unfolding is_blockmax_def by auto
qed

lemma tree_inv_init: "tree_inv a n 1 a"
proof -
  have "nth a ` {i..<min (i + 1) n} = {a ! i}" if "i < n" for i
  proof -
    have "{i..<min (i + 1) n} = {i}" using that by auto
    then show ?thesis by simp
  qed
  then show ?thesis by (simp add: tree_inv_def is_blockmax_single)
qed

lemma tree_inv_level:
  assumes inv: "tree_inv a n s t" and pos: "0 < s" and n: "n \<le> length a"
  shows "tree_inv a n (2 * s) (fold (temp_step n s) (strided 0 n (2 * s)) t)"
proof -
  let ?t' = "fold (temp_step n s) (strided 0 n (2 * s)) t"
  have lt: "length t = length a" using inv by (simp add: tree_inv_def)
  have nt: "n \<le> length t" using n lt by simp
  have len: "length ?t' = length a" using lt by (simp add: length_fold_temp_step)
  have blk: "is_blockmax (?t' ! i) (nth a ` {i..<min (i + 2 * s) n})"
    if i: "i < n" and d: "(2 * s) dvd i" for i
  proof -
    have il: "i < length t" using i nt by simp
    have ds: "s dvd i" using d by (metis dvd_mult_right mult.commute)
    have old: "is_blockmax (t ! i) (nth a ` {i..<min (i + s) n})"
      using inv i ds by (simp add: tree_inv_def)
    show ?thesis
    proof (cases "i + s < n")
      case True
      have ds': "s dvd (i + s)" using ds by simp
      have old': "is_blockmax (t ! (i + s)) (nth a ` {i + s..<min (i + s + s) n})"
        using inv True ds' by (simp add: tree_inv_def)
      have v: "?t' ! i = smax (t ! i) (t ! (i + s))"
        using temp_level_nth [OF pos nt il] d True by simp
      have "{i..<min (i + s) n} \<union> {i + s..<min (i + s + s) n} = {i..<min (i + 2 * s) n}"
        using True by auto
      then have "nth a ` {i..<min (i + s) n} \<union> nth a ` {i + s..<min (i + s + s) n} =
                 nth a ` {i..<min (i + 2 * s) n}"
        by (metis image_Un)
      then show ?thesis using is_blockmax_smax [OF old old'] v by simp
    next
      case False
      have v: "?t' ! i = t ! i" using temp_level_nth [OF pos nt il] False by simp
      have "min (i + 2 * s) n = min (i + s) n" using False by simp
      then show ?thesis using old v by simp
    qed
  qed
  show ?thesis unfolding tree_inv_def using len blk by blast
qed

lemma tree_inv_tree_level:
  assumes "tree_inv a n s (temp st)" "0 < s" "n \<le> length a"
  shows "tree_inv a n (2 * s) (temp (tree_level n s (2 * s) st))"
  using tree_inv_level [OF assms] by (simp add: tree_level_def temp_fold_tree_step)

lemma tree_inv_top:
  assumes inv: "tree_inv a n s t" and big: "n \<le> s" and n: "0 < n"
  shows "is_blockmax (t ! 0) (nth a ` {0..<n})"
proof -
  have "is_blockmax (t ! 0) (nth a ` {0..<min (0 + s) n})"
    using inv n unfolding tree_inv_def by (metis dvd_0_right)
  moreover have "min (0 + s) n = n" using big by simp
  ultimately show ?thesis by simp
qed



section \<open>The reduction with explicit barriers\<close>

lemma count_levels_ceillog2: "count_levels n l = l + ceillog2 n"
proof (induction n l rule: count_levels.induct)
  case (1 temp_n levels)
  show ?case
  proof (cases "1 < temp_n")
    case True
    have "count_levels temp_n levels = count_levels ((temp_n + 1) div 2) (levels + 1)"
      using True by (subst count_levels.simps) simp
    also have "\<dots> = levels + 1 + ceillog2 ((temp_n + 1) div 2)" using "1.IH" [OF True] .
    also have "\<dots> = levels + ceillog2 temp_n" using True by (subst (2) ceillog2_rec) simp
    finally show ?thesis .
  next
    case False
    then have "count_levels temp_n levels = levels" by (subst count_levels.simps) simp
    then show ?thesis using False by simp
  qed
qed

lemma barrier_levels_inv:
  assumes n: "n \<le> length a"
  shows "tree_inv a n (2 ^ l) (temp (fst (fold (barrier_level n) [0..<l] (\<lparr>arr = a, temp = a\<rparr>, [])))) \<and>
         arr (fst (fold (barrier_level n) [0..<l] (\<lparr>arr = a, temp = a\<rparr>, []))) = a"
proof (induction l)
  case 0
  then show ?case using tree_inv_init by simp
next
  case (Suc l)
  let ?sr = "fold (barrier_level n) [0..<l] (\<lparr>arr = a, temp = a\<rparr>, [])"
  have inv: "tree_inv a n (2 ^ l) (temp (fst ?sr))" and ar: "arr (fst ?sr) = a" using Suc by simp_all
  have f: "fst (barrier_level n l ?sr) = tree_level n (2 ^ l) (2 * 2 ^ l) (fst ?sr)"
    by (simp add: barrier_level_def Let_def mult.commute)
  have "tree_inv a n (2 * 2 ^ l) (temp (tree_level n (2 ^ l) (2 * 2 ^ l) (fst ?sr)))"
    using inv n by (intro tree_inv_tree_level) simp_all
  then show ?case using f ar by (simp add: arr_tree_level)
qed

lemma parallel_max_explicit_barriers_is_max:
  assumes n: "0 < n" "n \<le> length a" "n \<le> 2 ^ 30"
  shows "\<exists>r. parallel_max_explicit_barriers a n = Some r \<and> is_blockmax (max_value r) (nth a ` {0..<n}) \<and>
             sync_levels r = ceillog2 n \<and> caller_arr r = a"
proof -
  let ?sr = "fold (barrier_level n) [0..<ceillog2 n] (\<lparr>arr = a, temp = a\<rparr>, [])"
  have inv: "tree_inv a n (2 ^ ceillog2 n) (temp (fst ?sr))" and ar: "arr (fst ?sr) = a"
    using barrier_levels_inv [OF n(2), of "ceillog2 n"] by simp_all
  have "is_blockmax (temp (fst ?sr) ! 0) (nth a ` {0..<n})"
    using tree_inv_top [OF inv le_two_power_ceillog2 n(1)] .
  moreover have "a \<noteq> []" using n by auto
  ultimately show ?thesis using ar n
    by (simp add: parallel_max_explicit_barriers_def Let_def count_levels_ceillog2)
qed

section \<open>The reduction by chunks\<close>







lemma arr_tree_loop: "arr (tree_loop n stride s) = arr s"
proof (induction n stride s rule: tree_loop.induct)
  case (1 n stride s)
  show ?case
  proof (cases "stride < n \<and> 0 < stride")
    case True
    have "tree_loop n stride s = tree_loop n (stride * 2) (tree_level n stride (2 * stride) s)"
      using True by (subst tree_loop.simps) simp
    then show ?thesis using "1.IH" [OF True] by (simp add: arr_tree_level)
  next
    case False
    have "tree_loop n stride s = s" by (subst tree_loop.simps) (simp only: False if_False)
    then show ?thesis by simp
  qed
qed

lemma arr_barrier_levels: "arr (fst (fold (barrier_level n) ls sr)) = arr (fst sr)"
  by (induction ls arbitrary: sr) (simp_all add: barrier_level_def Let_def arr_tree_level)

section \<open>Sums of ranges\<close>

lemma range_sum_empty [simp]: "j \<le> i \<Longrightarrow> range_sum t i j = 0"
  by (simp add: range_sum_def)

lemma range_sum_Suc: "i \<le> j \<Longrightarrow> range_sum t i (Suc j) = range_sum t i j + t ! j"
  by (simp add: range_sum_def)

lemma range_sum_single [simp]: "range_sum t i (Suc i) = t ! i"
  by (simp add: range_sum_def)

lemma range_sum_concat: "i \<le> j \<Longrightarrow> j \<le> k \<Longrightarrow> range_sum t i j + range_sum t j k = range_sum t i k"
  unfolding range_sum_def by (rule sum.atLeastLessThan_concat)

lemma range_sum_cong: "(\<And>k. i \<le> k \<Longrightarrow> k < j \<Longrightarrow> t ! k = u ! k) \<Longrightarrow> range_sum t i j = range_sum u i j"
  unfolding range_sum_def by (rule sum.cong) simp_all

lemma fold_upt_Suc: "s \<le> m \<Longrightarrow> fold f [s..<Suc m] x = f m (fold f [s..<m] x)"
  by simp

section \<open>The sequential scan\<close>

lemma seq_scan_fold:
  assumes "1 \<le> m" and "m \<le> length r0" and "r0 ! 0 = a ! 0"
  shows "length (fold (\<lambda>i r. r[i := r ! (i - 1) + a ! i]) [1..<m] r0) = length r0 \<and>
         (\<forall>i<m. fold (\<lambda>i r. r[i := r ! (i - 1) + a ! i]) [1..<m] r0 ! i = range_sum a 0 (Suc i))"
  using assms(1,2)
proof (induction m rule: nat_induct_at_least)
  case base
  then show ?case using assms(3) by simp
next
  case (Suc m)
  let ?f = "\<lambda>i r. r[i := r ! (i - 1) + a ! i]"
  let ?r = "fold ?f [1..<m] r0"
  have ih: "length ?r = length r0" "\<And>i. i < m \<Longrightarrow> ?r ! i = range_sum a 0 (Suc i)"
    using Suc by simp_all
  have step: "fold ?f [1..<Suc m] r0 = ?r[m := ?r ! (m - 1) + a ! m]"
    using Suc.hyps by (simp add: fold_upt_Suc)
  have last: "?r ! (m - 1) + a ! m = range_sum a 0 (Suc m)"
    using ih(2) [of "m - 1"] Suc.hyps by (simp add: range_sum_Suc)
  have "fold ?f [1..<Suc m] r0 ! i = range_sum a 0 (Suc i)" if "i < Suc m" for i
  proof (cases "i = m")
    case True
    then show ?thesis unfolding step using last ih(1) Suc.prems by simp
  next
    case False
    then have "i < m" using that by simp
    then show ?thesis unfolding step using ih(2) False by simp
  qed
  then show ?case unfolding step using ih(1) by simp
qed

lemma sequential_prefix_sum_nth:
  "length (sequential_prefix_sum a) = length a \<and>
   (\<forall>i<length a. sequential_prefix_sum a ! i = range_sum a 0 (Suc i))"
proof (cases "a = []")
  case True
  then show ?thesis by (simp add: sequential_prefix_sum_def)
next
  case False
  let ?r0 = "(replicate (length a) (0 :: int32))[0 := a ! 0]"
  have "1 \<le> length a" using False by (simp add: Suc_le_eq)
  moreover have "length a \<le> length ?r0" by simp
  moreover have "?r0 ! 0 = a ! 0" using False by simp
  ultimately have "length (fold (\<lambda>i r. r[i := r ! (i - 1) + a ! i]) [1..<length a] ?r0) = length ?r0 \<and>
         (\<forall>i<length a. fold (\<lambda>i r. r[i := r ! (i - 1) + a ! i]) [1..<length a] ?r0 ! i = range_sum a 0 (Suc i))"
    by (rule seq_scan_fold)
  then show ?thesis using False by (simp add: sequential_prefix_sum_def Let_def)
qed

lemma scan_eq_sequentialI:
  assumes "length r = length a" and "\<And>i. i < length a \<Longrightarrow> r ! i = range_sum a 0 (Suc i)"
  shows "r = sequential_prefix_sum a"
  using assms sequential_prefix_sum_nth [of a] by (intro nth_equalityI) simp_all

section \<open>Sizes narrowed to \<^verbatim>\<open>int\<close>\<close>

lemma sint_of_nat_small: "N < 2 ^ 31 \<Longrightarrow> sint (word_of_nat N :: 32 word) = int N"
proof -
  assume "N < 2 ^ 31"
  then have "int N < 2 ^ 31" by (metis of_nat_less_numeral_power_cancel_iff)
  moreover have "- (2 ^ 31) \<le> int N" by simp
  ultimately have "signed_take_bit 31 (int N) = int N" by (intro signed_take_bit_int_eq_self)
  then show ?thesis by (simp add: signed_of_nat)
qed

section \<open>The scan by blocks\<close>

















text \<open>
  Where the chunk arithmetic or the size leaves the range of \<^verbatim>\<open>int\<close>, the scan by
  blocks returns no array: with \<open>2 ^ 31 - 1\<close> threads on one element and with 4 threads
  on \<open>2 ^ 31 - 3\<close> elements the sum \<^verbatim>\<open>n + num_threads\<close> overflows; for \<open>2 ^ 31\<close>
  elements the narrowed size is negative.
\<close>

lemma block_scan_beyond_int:
  "parallel_prefix_sum_recursive (2 ^ 31 - 1) [1] = None"
  "parallel_prefix_sum_recursive 4 (replicate (2 ^ 31 - 3) 0) = None"
  "parallel_prefix_sum_recursive 4 (replicate (2 ^ 31) 0) = None"
proof -
  show "parallel_prefix_sum_recursive (2 ^ 31 - 1) [1] = None"
    by (simp add: parallel_prefix_sum_recursive_def)
  have "sint (word_of_nat (2 ^ 31 - 3) :: int32) = int (2 ^ 31 - 3)"
    by (rule sint_of_nat_small) simp
  then show "parallel_prefix_sum_recursive 4 (replicate (2 ^ 31 - 3) 0) = None"
    by (simp add: parallel_prefix_sum_recursive_def)
  have "sint (word_of_nat (2 ^ 31) :: int32) = - (2 ^ 31)"
    by simp
  then show "parallel_prefix_sum_recursive 4 (replicate (2 ^ 31) 0) = None"
    by (simp add: parallel_prefix_sum_recursive_def)
qed

section \<open>The levels of the Blelloch scan\<close>

lemma block_last_iff:
  fixes st j :: nat
  assumes "0 < st"
  shows "(j div st) * st + st - 1 = j \<longleftrightarrow> st dvd Suc j"
proof -
  have j: "j = (j div st) * st + j mod st" by (simp only: div_mult_mod_eq)
  have r: "j mod st < st" using assms by simp
  have "st dvd Suc j \<longleftrightarrow> Suc (j mod st) = st"
    by (simp add: dvd_eq_mod_eq_0 mod_Suc)
  moreover have "(j div st) * st + st - 1 = j \<longleftrightarrow> Suc (j mod st) = st"
    using j r by linarith
  ultimately show ?thesis by simp
qed

lemma block_mid_iff:
  fixes st h j :: nat
  assumes "0 < h" "h < st"
  shows "(j div st) * st + (h - 1) = j \<longleftrightarrow> Suc j mod st = h"
proof -
  have j: "j = (j div st) * st + j mod st" by (simp only: div_mult_mod_eq)
  have r: "j mod st < st" using assms by simp
  have "Suc j mod st = h \<longleftrightarrow> Suc (j mod st) = h"
    using assms by (auto simp: mod_Suc)
  moreover have "(j div st) * st + (h - 1) = j \<longleftrightarrow> Suc (j mod st) = h"
    using j r assms by linarith
  ultimately show ?thesis by simp
qed

lemma block_fits:
  fixes st i P :: nat
  assumes "st dvd i" "st dvd P" "i < P"
  shows "i + st \<le> P"
proof -
  obtain q where q: "i = st * q" using assms(1) unfolding dvd_def by blast
  obtain p where p: "P = st * p" using assms(2) unfolding dvd_def by blast
  have "q < p" using assms(3) q p by simp
  then have "Suc q \<le> p" by simp
  then have "st * Suc q \<le> st * p" by (rule mult_le_mono2)
  then show ?thesis using q p by simp
qed

lemma length_upsweep_step: "length (upsweep_step d i t) = length t"
  by (simp add: upsweep_step_def Let_def)

lemma length_downsweep_step: "length (downsweep_step d i t) = length t"
  by (simp add: downsweep_step_def Let_def)

lemma upsweep_step_nth:
  assumes "st = 2 ^ (d + 1)" and "h = 2 ^ d" and "j < length t"
  shows "upsweep_step d i t ! j =
     (if j = i + st - 1 then t ! (i + st - 1) + t ! (i + (h - 1)) else t ! j)"
  using assms by (simp add: upsweep_step_def Let_def nth_list_update)

lemma downsweep_step_nth:
  assumes "st = 2 ^ (d + 1)" and "h = 2 ^ d" and "j < length t"
  shows "downsweep_step d i t ! j =
     (if j = i + st - 1 then t ! (i + st - 1) + t ! (i + (h - 1))
      else if j = i + (h - 1) then t ! (i + st - 1) else t ! j)"
proof -
  have "(2 :: nat) ^ d - 1 < 2 ^ (d + 1) - 1" by (simp add: diff_less_mono)
  then have ne: "i + (2 ^ d - 1) \<noteq> i + 2 ^ (d + 1) - (1 :: nat)" by simp
  show ?thesis using assms ne by (auto simp: downsweep_step_def Let_def nth_list_update)
qed

lemma upsweep_level_nth:
  assumes P: "length t = P" and dv: "2 ^ (d + 1) dvd P" and j: "j < P"
  shows "length (upsweep_level P d t) = P \<and>
         upsweep_level P d t ! j = (if 2 ^ (d + 1) dvd Suc j then t ! j + t ! (j - 2 ^ d) else t ! j)"
proof -
  define st :: nat where "st = 2 ^ (d + 1)"
  define h :: nat where "h = 2 ^ d"
  have st: "0 < st" "st = h + h" "0 < h" by (simp_all add: st_def h_def)
  note nth = upsweep_step_nth [OF st_def h_def]
  define b where "b = (j div st) * st"
  have bd: "st dvd b" by (simp add: b_def)
  have bj: "b \<le> j" by (simp add: b_def)
  have main: "length (fold (upsweep_step d) (strided 0 P st) t) = P \<and>
        fold (upsweep_step d) (strided 0 P st) t ! j =
          (if (j div st) * st \<in> set (strided 0 P st) then upsweep_step d ((j div st) * st) t ! j else t ! j)"
  proof (rule fold_block_local [where g = "upsweep_step d" and st = st and L = P])
    show "length (upsweep_step d i u) = length u" for i u by (rule length_upsweep_step)
    show "upsweep_step d i u ! k = u ! k"
      if h: "length u = P" "k < P" "\<not> (i \<le> k \<and> k < i + st)" for i u k
    proof -
      have "k \<noteq> i + st - 1" using h(3) st by linarith
      then show ?thesis using h nth [of k u i] by simp
    qed
    show "upsweep_step d i u ! k = upsweep_step d i u' ! k"
      if lu: "length u = P" and lu': "length u' = P"
        and ag: "\<And>q. i \<le> q \<Longrightarrow> q < i + st \<Longrightarrow> q < P \<Longrightarrow> u ! q = u' ! q"
        and k: "i \<le> k" "k < i + st" "k < P" for i u u' k
    proof (cases "k = i + st - 1")
      case True
      have "u ! (i + st - 1) = u' ! (i + st - 1)" using ag [of "i + st - 1"] True k st by simp
      moreover have "u ! (i + (h - 1)) = u' ! (i + (h - 1))" using ag [of "i + (h - 1)"] True k st by simp
      ultimately show ?thesis using True k lu lu' nth [of k u i] nth [of k u' i] by simp
    next
      case False
      then show ?thesis using ag [of k] k lu lu' nth [of k u i] nth [of k u' i] by simp
    qed
    show "0 < st" by (rule st)
    show "distinct (strided 0 P st)" by (rule distinct_strided)
    show "\<forall>i\<in>set (strided 0 P st). st dvd i" using set_strided [OF st(1)] by simp
    show "length t = P" by (rule P)
    show "j < P" by (rule j)
  qed
  have mem: "b \<in> set (strided 0 P st)" using set_strided [OF st(1), of P] bd bj j by simp
  have "upsweep_step d b t ! j = (if st dvd Suc j then t ! j + t ! (j - h) else t ! j)"
  proof (cases "st dvd Suc j")
    case True
    then have e: "b + st - 1 = j" using block_last_iff [OF st(1), of j] by (simp add: b_def)
    then have "b + (h - 1) = j - h" using st by linarith
    then show ?thesis using True e j P nth [of j t b] by simp
  next
    case False
    then have "b + st - 1 \<noteq> j" using block_last_iff [OF st(1), of j] by (simp add: b_def)
    then show ?thesis using False j P nth [of j t b] by auto
  qed
  then show ?thesis using main mem
    unfolding upsweep_level_def st_def [symmetric] h_def [symmetric] b_def [symmetric] by simp
qed

lemma downsweep_level_nth:
  assumes P: "length t = P" and dv: "2 ^ (d + 1) dvd P" and j: "j < P"
  shows "length (downsweep_level P d t) = P \<and>
         downsweep_level P d t ! j =
           (if 2 ^ (d + 1) dvd Suc j then t ! j + t ! (j - 2 ^ d)
            else if Suc j mod 2 ^ (d + 1) = 2 ^ d then t ! (j + 2 ^ d) else t ! j)"
proof -
  define st :: nat where "st = 2 ^ (d + 1)"
  define h :: nat where "h = 2 ^ d"
  have st: "0 < st" "st = h + h" "0 < h" by (simp_all add: st_def h_def)
  have dvP: "st dvd P" using dv by (simp add: st_def)
  note nth = downsweep_step_nth [OF st_def h_def]
  define b where "b = (j div st) * st"
  have bd: "st dvd b" by (simp add: b_def)
  have bj: "b \<le> j" by (simp add: b_def)
  have main: "length (fold (downsweep_step d) (strided 0 P st) t) = P \<and>
        fold (downsweep_step d) (strided 0 P st) t ! j =
          (if (j div st) * st \<in> set (strided 0 P st) then downsweep_step d ((j div st) * st) t ! j else t ! j)"
  proof (rule fold_block_local [where g = "downsweep_step d" and st = st and L = P])
    show "length (downsweep_step d i u) = length u" for i u by (rule length_downsweep_step)
    show "downsweep_step d i u ! k = u ! k"
      if h: "length u = P" "k < P" "\<not> (i \<le> k \<and> k < i + st)" for i u k
    proof -
      have "k \<noteq> i + st - 1" "k \<noteq> i + (h - 1)" using h(3) st by linarith+
      then show ?thesis using h nth [of k u i] by simp
    qed
    show "downsweep_step d i u ! k = downsweep_step d i u' ! k"
      if di: "st dvd i" and lu: "length u = P" and lu': "length u' = P"
        and ag: "\<And>q. i \<le> q \<Longrightarrow> q < i + st \<Longrightarrow> q < P \<Longrightarrow> u ! q = u' ! q"
        and k: "i \<le> k" "k < i + st" "k < P" for i u u' k
    proof -
      have fit: "i + st \<le> P" using block_fits [OF di dvP] k by simp
      have a1: "u ! (i + st - 1) = u' ! (i + st - 1)" using ag [of "i + st - 1"] fit st by simp
      have a2: "u ! (i + (h - 1)) = u' ! (i + (h - 1))" using ag [of "i + (h - 1)"] fit st by simp
      have a3: "u ! k = u' ! k" using ag [of k] k by simp
      show ?thesis using a1 a2 a3 k lu lu' nth [of k u i] nth [of k u' i] by simp
    qed
    show "0 < st" by (rule st)
    show "distinct (strided 0 P st)" by (rule distinct_strided)
    show "\<forall>i\<in>set (strided 0 P st). st dvd i" using set_strided [OF st(1)] by simp
    show "length t = P" by (rule P)
    show "j < P" by (rule j)
  qed
  have mem: "b \<in> set (strided 0 P st)" using set_strided [OF st(1), of P] bd bj j by simp
  have "downsweep_step d b t ! j =
          (if st dvd Suc j then t ! j + t ! (j - h)
           else if Suc j mod st = h then t ! (j + h) else t ! j)"
  proof (cases "st dvd Suc j")
    case True
    then have e: "b + st - 1 = j" using block_last_iff [OF st(1), of j] by (simp add: b_def)
    then have "b + (h - 1) = j - h" using st by linarith
    then show ?thesis using True e j P nth [of j t b] by simp
  next
    case False
    then have ne: "b + st - 1 \<noteq> j" using block_last_iff [OF st(1), of j] by (simp add: b_def)
    show ?thesis
    proof (cases "Suc j mod st = h")
      case True
      then have e: "b + (h - 1) = j" using block_mid_iff [of h st j] st by (simp add: b_def)
      then have "b + st - 1 = j + h" using st by linarith
      then show ?thesis using True False e ne j P nth [of j t b] by auto
    next
      case nm: False
      then have "b + (h - 1) \<noteq> j" using block_mid_iff [of h st j] st by (simp add: b_def)
      then show ?thesis using nm False ne j P nth [of j t b] by auto
    qed
  qed
  then show ?thesis using main mem
    unfolding downsweep_level_def st_def [symmetric] h_def [symmetric] b_def [symmetric] by simp
qed

section \<open>The invariants of the Blelloch scan\<close>

lemma half_block_mod:
  fixes h x :: nat
  assumes "0 < h"
  shows "x mod (h + h) = h \<longleftrightarrow> h dvd x \<and> \<not> (h + h) dvd x"
proof
  assume m: "x mod (h + h) = h"
  have "x = (x div (h + h)) * (h + h) + x mod (h + h)" by (simp only: div_mult_mod_eq)
  then have "x = h * (2 * (x div (h + h)) + 1)" using m by (simp add: algebra_simps)
  then have "h dvd x" by (metis dvd_triv_left)
  moreover have "\<not> (h + h) dvd x" using m assms by (simp add: dvd_eq_mod_eq_0)
  ultimately show "h dvd x \<and> \<not> (h + h) dvd x" by simp
next
  assume a: "h dvd x \<and> \<not> (h + h) dvd x"
  then obtain q where q: "x = h * q" unfolding dvd_def by blast
  have "odd q"
  proof
    assume "even q"
    then obtain r where "q = 2 * r" by (auto elim: evenE)
    then have "x = (h + h) * r" using q by (simp add: algebra_simps)
    then show False using a by simp
  qed
  then have "q mod 2 = 1" by (simp add: odd_iff_mod_2_eq_one)
  moreover have "(h * q) mod (h * 2) = h * (q mod 2)" by (rule mult_mod_right [symmetric])
  ultimately show "x mod (h + h) = h" using q by (simp add: mult_2_right)
qed

lemma pow_dvd_trans: "h \<le> d \<Longrightarrow> (2 :: nat) ^ d dvd x \<Longrightarrow> 2 ^ h dvd x"
  by (meson dvd_trans le_imp_power_dvd)

lemma length_fold_preserved:
  assumes "\<And>i u. length (g i u) = length u"
  shows "length (fold g is t) = length t"
  by (induction "is" arbitrary: t) (simp_all add: assms)

lemma length_upsweep_level: "length (upsweep_level P d t) = length t"
  unfolding upsweep_level_def by (rule length_fold_preserved) (rule length_upsweep_step)

lemma length_downsweep_level: "length (downsweep_level P d t) = length t"
  unfolding downsweep_level_def by (rule length_fold_preserved) (rule length_downsweep_step)

lemma up_inv_init: "up_inv t0 0 t0"
  by (simp add: up_inv_def)

lemma up_inv_level:
  assumes inv: "up_inv t0 d t" and dv: "2 ^ (d + 1) dvd length t0"
  shows "up_inv t0 (Suc d) (upsweep_level (length t0) d t)"
proof -
  define P where "P = length t0"
  define t' where "t' = upsweep_level P d t"
  define h :: nat where "h = 2 ^ d"
  have h: "0 < h" "(2 :: nat) ^ (d + 1) = h + h" "(2 :: nat) ^ Suc d = h + h" by (simp_all add: h_def)
  have lt: "length t = P" using inv by (simp add: up_inv_def P_def)
  have old: "\<And>j k. j < P \<Longrightarrow> k \<le> d \<Longrightarrow> 2 ^ k dvd Suc j \<Longrightarrow> k = d \<or> \<not> 2 ^ Suc k dvd Suc j \<Longrightarrow>
               t ! j = range_sum t0 (Suc j - 2 ^ k) (Suc j)"
    using inv unfolding up_inv_def P_def by blast
  have dv': "2 ^ (d + 1) dvd P" using dv by (simp add: P_def)
  have lev: "length t' = P"
    "\<And>j. j < P \<Longrightarrow> t' ! j = (if (h + h) dvd Suc j then t ! j + t ! (j - h) else t ! j)"
  proof -
    show "length t' = P" using lt by (simp add: t'_def length_upsweep_level)
    fix j
    assume "j < P"
    from upsweep_level_nth [OF lt dv' this]
    show "t' ! j = (if (h + h) dvd Suc j then t ! j + t ! (j - h) else t ! j)"
      unfolding h(2) h_def [symmetric] t'_def by blast
  qed
  have new: "t' ! j = range_sum t0 (Suc j - 2 ^ k) (Suc j)"
    if j: "j < P" and k: "k \<le> Suc d" and dk: "2 ^ k dvd Suc j"
      and mx: "k = Suc d \<or> \<not> 2 ^ Suc k dvd Suc j" for j k
  proof (cases "k = Suc d")
    case True
    then have dj: "(h + h) dvd Suc j" using dk h by simp
    then have big: "h + h \<le> Suc j" by (rule dvd_imp_le) simp
    have hd: "h dvd Suc j" using dj by (metis dvd_add_left_iff dvd_refl dvd_trans dvd_triv_left mult_2)
    have v: "t' ! j = t ! j + t ! (j - h)" using lev(2) [OF j] dj by simp
    have a: "t ! j = range_sum t0 (Suc j - h) (Suc j)"
      using old [OF j order_refl] hd by (simp add: h_def)
    have sj: "Suc (j - h) = Suc j - h" using big h by linarith
    have "h dvd Suc (j - h)" unfolding sj using hd by (simp add: dvd_diff_nat)
    moreover have "j - h < P" using j by simp
    ultimately have "t ! (j - h) = range_sum t0 (Suc (j - h) - h) (Suc (j - h))"
      using old [of "j - h" d] by (simp add: h_def)
    then have b: "t ! (j - h) = range_sum t0 (Suc j - (h + h)) (Suc j - h)" unfolding sj by simp
    have "range_sum t0 (Suc j - (h + h)) (Suc j - h) + range_sum t0 (Suc j - h) (Suc j) =
          range_sum t0 (Suc j - (h + h)) (Suc j)"
      by (rule range_sum_concat) simp_all
    then show ?thesis using v a b True h by (simp add: add.commute)
  next
    case False
    then have kd: "k \<le> d" and nk: "\<not> 2 ^ Suc k dvd Suc j" using k mx by simp_all
    have "\<not> (h + h) dvd Suc j"
    proof
      assume "(h + h) dvd Suc j"
      then have "2 ^ Suc d dvd Suc j" using h by simp
      then have "2 ^ Suc k dvd Suc j" using kd by (intro pow_dvd_trans [of "Suc k" "Suc d"]) simp_all
      then show False using nk by simp
    qed
    then have "t' ! j = t ! j" using lev(2) [OF j] by simp
    then show ?thesis using old [OF j kd dk] nk by simp
  qed
  show ?thesis unfolding up_inv_def P_def [symmetric] t'_def [symmetric] using lev(1) new by blast
qed

lemma up_inv_upsweep:
  assumes P: "length t0 = 2 ^ log_n"
  shows "m \<le> log_n \<Longrightarrow> up_inv t0 m (fold (upsweep_level (2 ^ log_n)) [0..<m] t0)"
proof (induction m)
  case 0
  then show ?case by (simp add: up_inv_init)
next
  case (Suc m)
  have "(2 :: nat) ^ (m + 1) dvd 2 ^ log_n" using Suc.prems by (intro le_imp_power_dvd) simp
  then have "up_inv t0 (Suc m) (upsweep_level (length t0) m (fold (upsweep_level (2 ^ log_n)) [0..<m] t0))"
    using Suc P by (intro up_inv_level) simp_all
  then show ?case using P by simp
qed

lemma up_inv_block:
  assumes inv: "up_inv t0 (Suc d) t" and i: "i < length t0"
    and di: "2 ^ (d + 1) dvd i" and dP: "2 ^ (d + 1) dvd length t0"
  shows "t ! (i + 2 ^ (d + 1) - 1) = range_sum t0 i (i + 2 ^ (d + 1))"
proof -
  define st :: nat where "st = 2 ^ (d + 1)"
  have st: "0 < st" by (simp add: st_def)
  have fit: "i + st \<le> length t0" using block_fits [of st i "length t0"] di dP i by (simp add: st_def)
  then have j: "i + st - 1 < length t0" using st by linarith
  have s: "Suc (i + st - 1) = i + st" using st by simp
  have "2 ^ Suc d dvd Suc (i + st - 1)" unfolding s using di by (simp add: st_def)
  then have "t ! (i + st - 1) = range_sum t0 (Suc (i + st - 1) - 2 ^ Suc d) (Suc (i + st - 1))"
    using inv j unfolding up_inv_def by blast
  then show ?thesis unfolding s by (simp add: st_def)
qed

lemma down_inv_init:
  assumes inv: "up_inv t0 log_n t" and P: "length t0 = 2 ^ log_n"
  shows "down_inv t0 log_n (t[2 ^ log_n - 1 := 0])"
proof -
  define Q :: nat where "Q = 2 ^ log_n"
  have Q: "0 < Q" by (simp add: Q_def)
  have lt: "length t = Q" using inv P by (simp add: up_inv_def Q_def)
  have top: "j = Q - 1" if "j < Q" "Q dvd Suc j" for j
  proof -
    have "Q \<le> Suc j" using that(2) by (rule dvd_imp_le) simp
    then show ?thesis using that(1) by simp
  qed
  have a: "t[Q - 1 := 0] ! j = range_sum t0 0 (Suc j - Q)" if j: "j < Q" and d: "Q dvd Suc j" for j
  proof -
    have "j = Q - 1" using top [OF j d] .
    then show ?thesis using lt j Q by simp
  qed
  have b: "t[Q - 1 := 0] ! j = range_sum t0 (Suc j - 2 ^ h) (Suc j)"
    if j: "j < Q" and h: "h < log_n" and d: "2 ^ h dvd Suc j" and nd: "\<not> 2 ^ Suc h dvd Suc j" for j h
  proof -
    have "j \<noteq> Q - 1"
    proof
      assume "j = Q - 1"
      then have "Suc j = 2 ^ log_n" using Q by (simp add: Q_def)
      then have "2 ^ Suc h dvd Suc j" using h by (metis Suc_leI le_imp_power_dvd)
      then show False using nd by simp
    qed
    then have "t[Q - 1 := 0] ! j = t ! j" by simp
    moreover have "t ! j = range_sum t0 (Suc j - 2 ^ h) (Suc j)"
      using inv j h d nd P unfolding up_inv_def Q_def by (metis less_imp_le_nat)
    ultimately show ?thesis by simp
  qed
  show ?thesis unfolding down_inv_def Q_def [symmetric] using lt P a b by (simp add: Q_def)
qed

lemma down_inv_level:
  assumes inv: "down_inv t0 (Suc d) t" and dv: "2 ^ (d + 1) dvd length t0"
  shows "down_inv t0 d (downsweep_level (length t0) d t)"
proof -
  define P where "P = length t0"
  define t' where "t' = downsweep_level P d t"
  define h :: nat where "h = 2 ^ d"
  have h: "0 < h" "(2 :: nat) ^ (d + 1) = h + h" "(2 :: nat) ^ Suc d = h + h" by (simp_all add: h_def)
  have lt: "length t = P" using inv by (simp add: down_inv_def P_def)
  have dv': "2 ^ (d + 1) dvd P" using dv by (simp add: P_def)
  have dvh: "(h + h) dvd P" using dv' h by simp
  have old1: "\<And>j. j < P \<Longrightarrow> (h + h) dvd Suc j \<Longrightarrow> t ! j = range_sum t0 0 (Suc j - (h + h))"
    using inv unfolding down_inv_def P_def h(3) by blast
  have old2: "\<And>j k. j < P \<Longrightarrow> k < Suc d \<Longrightarrow> 2 ^ k dvd Suc j \<Longrightarrow> \<not> 2 ^ Suc k dvd Suc j \<Longrightarrow>
               t ! j = range_sum t0 (Suc j - 2 ^ k) (Suc j)"
    using inv unfolding down_inv_def P_def by blast
  have lev: "length t' = P"
    "\<And>j. j < P \<Longrightarrow> t' ! j = (if (h + h) dvd Suc j then t ! j + t ! (j - h)
                              else if Suc j mod (h + h) = h then t ! (j + h) else t ! j)"
  proof -
    show "length t' = P" using lt by (simp add: t'_def length_downsweep_level)
    fix j
    assume "j < P"
    from downsweep_level_nth [OF lt dv' this]
    show "t' ! j = (if (h + h) dvd Suc j then t ! j + t ! (j - h)
                    else if Suc j mod (h + h) = h then t ! (j + h) else t ! j)"
      unfolding h(2) h_def [symmetric] t'_def by blast
  qed
  have new1: "t' ! j = range_sum t0 0 (Suc j - h)" if j: "j < P" and dj: "h dvd Suc j" for j
  proof (cases "(h + h) dvd Suc j")
    case True
    then have big: "h + h \<le> Suc j" by (rule dvd_imp_le) simp
    have v: "t' ! j = t ! j + t ! (j - h)" using lev(2) [OF j] True by simp
    have a: "t ! j = range_sum t0 0 (Suc j - (h + h))" using old1 [OF j True] .
    have sj: "Suc (j - h) = Suc j - h" using big h by linarith
    have d1: "2 ^ d dvd Suc (j - h)" unfolding sj using dj by (simp add: dvd_diff_nat h_def)
    have d2: "\<not> 2 ^ Suc d dvd Suc (j - h)"
    proof
      assume "2 ^ Suc d dvd Suc (j - h)"
      then have "(h + h) dvd (Suc j - h)" unfolding sj h(3) .
      then have "(h + h) dvd (Suc j - (Suc j - h))" using True by (rule dvd_diff_nat [rotated])
      moreover have "Suc j - (Suc j - h) = h" using big by linarith
      ultimately have "(h + h) dvd h" by simp
      then have "h + h \<le> h" by (rule dvd_imp_le) (rule h)
      then show False using h by simp
    qed
    have "j - h < P" using j by simp
    then have "t ! (j - h) = range_sum t0 (Suc (j - h) - 2 ^ d) (Suc (j - h))"
      using old2 [of "j - h" d] d1 d2 by simp
    then have b: "t ! (j - h) = range_sum t0 (Suc j - (h + h)) (Suc j - h)"
      unfolding sj by (simp add: h_def)
    have "range_sum t0 0 (Suc j - (h + h)) + range_sum t0 (Suc j - (h + h)) (Suc j - h) =
          range_sum t0 0 (Suc j - h)"
      by (rule range_sum_concat) simp_all
    then show ?thesis using v a b by simp
  next
    case False
    then have m: "Suc j mod (h + h) = h" using half_block_mod [OF h(1), of "Suc j"] dj by simp
    have v: "t' ! j = t ! (j + h)" using lev(2) [OF j] False m by simp
    have dn: "(h + h) dvd Suc (j + h)"
    proof -
      define q where "q = Suc j div (h + h)"
      have "Suc j = q * (h + h) + h" unfolding q_def using m by (metis div_mult_mod_eq)
      then have "Suc (j + h) = q * (h + h) + (h + h)" by linarith
      then have "Suc (j + h) = (h + h) * Suc q" by (simp add: algebra_simps)
      then show ?thesis by (metis dvd_triv_left)
    qed
    have fit: "j + h < P"
    proof (rule ccontr)
      assume "\<not> j + h < P"
      then have "P < Suc (j + h)" by simp
      then have "P + (h + h) \<le> Suc (j + h)" using block_fits [OF dvh dn] by simp
      then show False using j h(1) by linarith
    qed
    have "t ! (j + h) = range_sum t0 0 (Suc (j + h) - (h + h))" using old1 [OF fit dn] .
    moreover have "Suc (j + h) - (h + h) = Suc j - h" by simp
    ultimately show ?thesis using v by simp
  qed
  have new2: "t' ! j = range_sum t0 (Suc j - 2 ^ k) (Suc j)"
    if j: "j < P" and k: "k < d" and dk: "2 ^ k dvd Suc j" and nk: "\<not> 2 ^ Suc k dvd Suc j" for j k
  proof -
    have nh: "\<not> h dvd Suc j"
    proof
      assume "h dvd Suc j"
      then have "2 ^ Suc k dvd Suc j" using k by (intro pow_dvd_trans [of "Suc k" d]) (simp_all add: h_def)
      then show False using nk by simp
    qed
    have "\<not> (h + h) dvd Suc j" using nh by (metis dvd_add_left_iff dvd_refl dvd_trans dvd_triv_left mult_2)
    moreover have "Suc j mod (h + h) \<noteq> h" using half_block_mod [OF h(1), of "Suc j"] nh by simp
    ultimately have "t' ! j = t ! j" using lev(2) [OF j] by simp
    then show ?thesis using old2 [OF j _ dk nk] k by simp
  qed
  show ?thesis unfolding down_inv_def P_def [symmetric] t'_def [symmetric] h_def [symmetric]
    using lev(1) new1 new2 by blast
qed

lemma down_inv_downsweep:
  assumes P: "length t0 = 2 ^ log_n"
  shows "m \<le> log_n \<Longrightarrow> down_inv t0 m t \<Longrightarrow> down_inv t0 0 (fold (downsweep_level (2 ^ log_n)) (rev [0..<m]) t)"
proof (induction m arbitrary: t)
  case 0
  then show ?case by simp
next
  case (Suc m)
  have "(2 :: nat) ^ (m + 1) dvd 2 ^ log_n" using Suc.prems by (intro le_imp_power_dvd) simp
  then have "down_inv t0 m (downsweep_level (length t0) m t)"
    using Suc.prems P by (intro down_inv_level) simp_all
  then have "down_inv t0 0 (fold (downsweep_level (2 ^ log_n)) (rev [0..<m]) (downsweep_level (2 ^ log_n) m t))"
    using Suc.IH Suc.prems P by simp
  then show ?case by simp
qed

lemma down_inv_exclusive: "down_inv t0 0 t \<Longrightarrow> j < length t0 \<Longrightarrow> t ! j = range_sum t0 0 j"
  unfolding down_inv_def by simp

lemma exclusive_scan_of_buffer:
  assumes P: "length t0 = 2 ^ log_n" and j: "j < 2 ^ log_n"
  shows "downsweep (2 ^ log_n) log_n ((upsweep (2 ^ log_n) log_n t0)[2 ^ log_n - 1 := 0]) ! j = range_sum t0 0 j"
proof -
  have "up_inv t0 log_n (upsweep (2 ^ log_n) log_n t0)"
    unfolding upsweep_def using P by (intro up_inv_upsweep) simp_all
  then have "down_inv t0 log_n ((upsweep (2 ^ log_n) log_n t0)[2 ^ log_n - 1 := 0])"
    using P by (rule down_inv_init)
  then have "down_inv t0 0 (downsweep (2 ^ log_n) log_n ((upsweep (2 ^ log_n) log_n t0)[2 ^ log_n - 1 := 0]))"
    unfolding downsweep_def using P by (intro down_inv_downsweep) simp_all
  then show ?thesis using j P by (intro down_inv_exclusive) simp_all
qed

lemma pad_copy_nth:
  "m \<le> n \<Longrightarrow> length (pad_copy a m n) = n \<and> (\<forall>k<n. pad_copy a m n ! k = (if k < m then a ! k else 0))"
  unfolding pad_copy_def
proof (induction m)
  case 0
  then show ?case by simp
next
  case (Suc m)
  then show ?case by (auto simp: nth_list_update)
qed

lemma to_inclusive_nth:
  "length (to_inclusive a m t) = m \<and> (\<forall>k<m. to_inclusive a m t ! k = t ! k + a ! k)"
proof -
  have "j \<le> m \<Longrightarrow> length (fold (\<lambda>i result. result[i := t ! i + a ! i]) [0..<j] (replicate m 0)) = m \<and>
        (\<forall>k<j. fold (\<lambda>i result. result[i := t ! i + a ! i]) [0..<j] (replicate m 0) ! k = t ! k + a ! k)" for j
  proof (induction j)
    case 0
    then show ?case by simp
  next
    case (Suc j)
    then show ?case by (auto simp: nth_list_update less_Suc_eq)
  qed
  from this [of m] show ?thesis by (simp add: to_inclusive_def)
qed

section \<open>The Blelloch scan as a whole\<close>

lemma sint_pow2_small: "l < 31 \<Longrightarrow> sint (push_bit l 1 :: 32 word) = 2 ^ l"
proof -
  assume l: "l < 31"
  have "(2 :: int) ^ l < 2 ^ 31" using l by (intro power_strict_increasing) simp_all
  moreover have "- (2 ^ 31) \<le> (2 :: int) ^ l" by (rule order_trans [of _ 0]) simp_all
  ultimately have "signed_take_bit 31 ((2 :: int) ^ l) = 2 ^ l" by (intro signed_take_bit_int_eq_self)
  moreover have "sint (word_of_int (2 ^ l) :: 32 word) = signed_take_bit 31 ((2 :: int) ^ l)"
    by (simp only: signed_of_int) simp
  moreover have "(push_bit l 1 :: 32 word) = word_of_int (2 ^ l)" by simp
  ultimately show ?thesis by simp
qed

lemma sint_pow2_31: "sint (push_bit 31 1 :: 32 word) < 0"
  by simp


lemma range_sum_pad_copy:
  assumes "m \<le> n" and "j \<le> m"
  shows "range_sum (pad_copy a m n) 0 j = range_sum a 0 j"
proof (rule range_sum_cong)
  fix k
  assume "0 \<le> k" "k < j"
  then show "pad_copy a m n ! k = a ! k" using pad_copy_nth [OF assms(1), of a] assms by simp
qed

lemma blelloch_core:
  assumes N: "N = length a" and NP: "N \<le> 2 ^ L"
  shows "to_inclusive a N (downsweep (2 ^ L) L ((upsweep (2 ^ L) L (pad_copy a N (2 ^ L)))[2 ^ L - 1 := 0])) =
         sequential_prefix_sum a"
proof (rule scan_eq_sequentialI)
  define t0 where "t0 = pad_copy a N (2 ^ L)"
  define ex where "ex = downsweep (2 ^ L) L ((upsweep (2 ^ L) L t0)[2 ^ L - 1 := 0])"
  have l0: "length t0 = 2 ^ L" using pad_copy_nth [OF NP, of a] by (simp add: t0_def)
  show "length (to_inclusive a N (downsweep (2 ^ L) L ((upsweep (2 ^ L) L (pad_copy a N (2 ^ L)))[2 ^ L - 1 := 0]))) =
        length a"
    using to_inclusive_nth [of a N] N by simp
  fix i
  assume i: "i < length a"
  then have iN: "i < N" using N by simp
  then have iP: "i < 2 ^ L" using NP by simp
  have "to_inclusive a N ex ! i = ex ! i + a ! i" using to_inclusive_nth [of a N ex] iN by simp
  also have "ex ! i = range_sum t0 0 i" unfolding ex_def using l0 iP by (rule exclusive_scan_of_buffer)
  also have "range_sum t0 0 i = range_sum a 0 i" unfolding t0_def using NP iN by (intro range_sum_pad_copy) simp_all
  also have "range_sum a 0 i + a ! i = range_sum a 0 (Suc i)" by (simp add: range_sum_Suc)
  finally show "to_inclusive a N (downsweep (2 ^ L) L ((upsweep (2 ^ L) L (pad_copy a N (2 ^ L)))[2 ^ L - 1 := 0])) ! i =
        range_sum a 0 (Suc i)"
    by (simp add: ex_def t0_def)
qed

lemma blelloch_in_range:
  assumes pos: "0 < length a" and le: "length a \<le> 2 ^ 30"
  shows "parallel_prefix_sum_blelloch a =
         Inr (\<lparr>padded = 2 ^ ceillog2 (length a), levels = ceillog2 (length a),
               sync_steps = 2 * ceillog2 (length a)\<rparr>, sequential_prefix_sum a)"
proof -
  define N where "N = length a"
  define L where "L = ceillog2 N"
  have N31: "N < 2 ^ 31" using le by (simp add: N_def)
  have s1: "sint (word_of_nat N :: 32 word) = int N" using N31 by (rule sint_of_nat_small)
  have L30: "L \<le> 30" unfolding L_def using pos le by (simp add: ceillog2_le_iff N_def)
  then have s2: "sint (push_bit L 1 :: 32 word) = 2 ^ L" by (intro sint_pow2_small) simp
  have NP: "N \<le> 2 ^ L" unfolding L_def by (rule le_two_power_ceillog2)
  have nat2: "nat (2 ^ L) = (2 :: nat) ^ L" by (simp add: nat_power_eq)
  have "parallel_prefix_sum_blelloch a =
        Inr (\<lparr>padded = 2 ^ L, levels = L, sync_steps = 2 * L\<rparr>,
             to_inclusive a N (downsweep (2 ^ L) L ((upsweep (2 ^ L) L (pad_copy a N (2 ^ L)))[2 ^ L - 1 := 0])))"
    unfolding parallel_prefix_sum_blelloch_def N_def [symmetric] s1 Let_def nat_int L_def [symmetric] s2 nat2
    using pos by (simp add: N_def)
  then show ?thesis using blelloch_core [OF N_def NP] by (simp add: L_def N_def)
qed

lemma blelloch_length_error:
  assumes "2 ^ 30 < length a" and "length a < 2 ^ 31"
  shows "parallel_prefix_sum_blelloch a = Inl Length_error"
proof -
  define N where "N = length a"
  have s1: "sint (word_of_nat N :: 32 word) = int N" using assms(2) unfolding N_def by (rule sint_of_nat_small)
  have L: "ceillog2 N = 31" using assms by (intro ceillog2_eqI) (simp_all add: N_def)
  have "(0 :: nat) < 2 ^ 30" by simp
  then have pos: "0 < N" using assms(1) unfolding N_def by (rule less_trans)
  show ?thesis
    unfolding parallel_prefix_sum_blelloch_def N_def [symmetric] s1 Let_def nat_int L
    using pos by simp
qed

section \<open>The comparison of two arrays\<close>

lemma verify_loop_result:
  "length a = length b \<Longrightarrow> i \<le> length a \<Longrightarrow> (\<forall>j<i. a ! j = b ! j) \<Longrightarrow>
   (verify_loop a b i = (True, None) \<and> (\<forall>j<length a. a ! j = b ! j)) \<or>
   (\<exists>k. i \<le> k \<and> k < length a \<and> verify_loop a b i = (False, Some (k, a ! k, b ! k)) \<and>
        a ! k \<noteq> b ! k \<and> (\<forall>j<k. a ! j = b ! j))"
proof (induction a b i rule: verify_loop.induct)
  case (1 a b i)
  show ?case
  proof (cases "i < length a")
    case False
    then have "verify_loop a b i = (True, None)" by (subst verify_loop.simps) simp
    moreover have "\<forall>j<length a. a ! j = b ! j" using False "1.prems" by simp
    ultimately show ?thesis by simp
  next
    case True
    show ?thesis
    proof (cases "a ! i \<noteq> b ! i")
      case ne: True
      have "verify_loop a b i = (False, Some (i, a ! i, b ! i))"
        using True ne by (subst verify_loop.simps) simp
      then show ?thesis using True ne "1.prems" by blast
    next
      case eq: False
      have u: "verify_loop a b i = verify_loop a b (i + 1)"
        using True eq by (subst verify_loop.simps) simp
      have pre: "\<forall>j<i + 1. a ! j = b ! j" using "1.prems"(3) eq by (simp add: less_Suc_eq)
      have "(verify_loop a b (i + 1) = (True, None) \<and> (\<forall>j<length a. a ! j = b ! j)) \<or>
            (\<exists>k. i + 1 \<le> k \<and> k < length a \<and> verify_loop a b (i + 1) = (False, Some (k, a ! k, b ! k)) \<and>
                 a ! k \<noteq> b ! k \<and> (\<forall>j<k. a ! j = b ! j))"
        using "1.IH" [OF True _ "1.prems"(1) _ pre] True eq by simp
      then show ?thesis unfolding u by (metis add_leD1)
    qed
  qed
qed

section \<open>The cells an iteration touches\<close>

lemma strided_multiple: "0 < st \<Longrightarrow> i \<in> set (strided 0 n st) \<Longrightarrow> st dvd i \<and> i < n"
  by (simp add: set_strided)

lemma multiples_apart:
  fixes st i1 i2 :: nat
  assumes "st dvd i1" "st dvd i2" "i1 \<noteq> i2"
  shows "i1 + st \<le> i2 \<or> i2 + st \<le> i1"
proof -
  obtain q1 where q1: "i1 = st * q1" using assms(1) unfolding dvd_def by blast
  obtain q2 where q2: "i2 = st * q2" using assms(2) unfolding dvd_def by blast
  have "q1 \<noteq> q2" using assms(3) q1 q2 by auto
  then have "Suc q1 \<le> q2 \<or> Suc q2 \<le> q1" by linarith
  then have "st * Suc q1 \<le> st * q2 \<or> st * Suc q2 \<le> st * q1" by (metis mult_le_mono2)
  then show ?thesis using q1 q2 by (simp add: ac_simps)
qed

lemma scan_touched_bound: "i + 2 ^ (d + 1) \<le> L \<Longrightarrow> k \<in> scan_touched d i \<Longrightarrow> k < L"
proof -
  assume a: "i + 2 ^ (d + 1) \<le> L" "k \<in> scan_touched d i"
  define h :: nat where "h = 2 ^ d"
  have h: "0 < h" "(2 :: nat) ^ (d + 1) = h + h" by (simp_all add: h_def)
  have "k = i + (h - 1) \<or> k = i + (h + h) - 1" using a(2) unfolding scan_touched_def h(2) h_def by simp
  moreover have "i + (h + h) \<le> L" using a(1) unfolding h(2) .
  ultimately show ?thesis using h(1) by linarith
qed

lemma tree_touched_disjoint:
  assumes "0 < stride" and "i1 \<in> set (strided 0 n (2 * stride))" and "i2 \<in> set (strided 0 n (2 * stride))"
    and "i1 \<noteq> i2"
  shows "tree_touched stride i1 \<inter> tree_touched stride i2 = {}"
proof -
  have "2 * stride dvd i1" "2 * stride dvd i2"
    using strided_multiple [of "2 * stride"] assms by simp_all
  then have "i1 + 2 * stride \<le> i2 \<or> i2 + 2 * stride \<le> i1" using assms(4) by (rule multiples_apart)
  then show ?thesis using assms(1) by (auto simp: tree_touched_def)
qed

lemma scan_touched_disjoint:
  assumes "i1 \<in> set (strided 0 n (2 ^ (d + 1)))" and "i2 \<in> set (strided 0 n (2 ^ (d + 1)))"
    and "i1 \<noteq> i2"
  shows "scan_touched d i1 \<inter> scan_touched d i2 = {}"
proof -
  define st :: nat where "st = 2 ^ (d + 1)"
  define h :: nat where "h = 2 ^ d"
  have st: "0 < h" "st = h + h" by (simp_all add: st_def h_def)
  have "st dvd i1" "st dvd i2"
    using strided_multiple [of st] assms st unfolding st_def by simp_all
  then have "i1 + st \<le> i2 \<or> i2 + st \<le> i1" using assms(3) by (rule multiples_apart)
  then have "{i1 + (h - 1), i1 + st - 1} \<inter> {i2 + (h - 1), i2 + st - 1} = {}" using st by auto
  then show ?thesis by (simp add: scan_touched_def st_def h_def)
qed

lemma tree_step_writes: "k \<notin> tree_touched stride i \<Longrightarrow> temp (tree_step n stride i s) ! k = temp s ! k"
  by (simp add: tree_step_def tree_touched_def)

lemma tree_step_reads:
  assumes "\<forall>k\<in>tree_touched stride i. temp s ! k = temp s' ! k" and "length (temp s) = length (temp s')"
    and "k \<in> tree_touched stride i" and "n \<le> length (temp s)" and "0 < stride"
  shows "temp (tree_step n stride i s) ! k = temp (tree_step n stride i s') ! k"
  using assms by (auto simp: tree_step_def tree_touched_def nth_list_update)

lemma upsweep_step_writes: "k \<notin> scan_touched d i \<Longrightarrow> upsweep_step d i t ! k = t ! k"
  by (simp add: upsweep_step_def scan_touched_def Let_def)

lemma downsweep_step_writes: "k \<notin> scan_touched d i \<Longrightarrow> downsweep_step d i t ! k = t ! k"
  by (simp add: downsweep_step_def scan_touched_def Let_def)

lemma upsweep_step_reads:
  assumes "\<forall>k\<in>scan_touched d i. t ! k = t' ! k" and "length t = length t'"
    and "k \<in> scan_touched d i" and "i + 2 ^ (d + 1) \<le> length t"
  shows "upsweep_step d i t ! k = upsweep_step d i t' ! k"
proof -
  define st :: nat where "st = 2 ^ (d + 1)"
  define h :: nat where "h = 2 ^ d"
  have kl: "k < length t" using assms(4,3) by (rule scan_touched_bound)
  have t: "scan_touched d i = {i + (h - 1), i + st - 1}" by (simp add: scan_touched_def st_def h_def)
  have a: "t ! (i + (h - 1)) = t' ! (i + (h - 1))" "t ! (i + st - 1) = t' ! (i + st - 1)" "t ! k = t' ! k"
    using assms(1,3) unfolding t by auto
  show ?thesis
    using a kl assms(2) upsweep_step_nth [OF st_def h_def, of k t i] upsweep_step_nth [OF st_def h_def, of k t' i]
    by simp
qed

lemma downsweep_step_reads:
  assumes "\<forall>k\<in>scan_touched d i. t ! k = t' ! k" and "length t = length t'"
    and "k \<in> scan_touched d i" and "i + 2 ^ (d + 1) \<le> length t"
  shows "downsweep_step d i t ! k = downsweep_step d i t' ! k"
proof -
  define st :: nat where "st = 2 ^ (d + 1)"
  define h :: nat where "h = 2 ^ d"
  have kl: "k < length t" using assms(4,3) by (rule scan_touched_bound)
  have t: "scan_touched d i = {i + (h - 1), i + st - 1}" by (simp add: scan_touched_def st_def h_def)
  have a: "t ! (i + (h - 1)) = t' ! (i + (h - 1))" "t ! (i + st - 1) = t' ! (i + st - 1)" "t ! k = t' ! k"
    using assms(1,3) unfolding t by auto
  show ?thesis
    using a kl assms(2) downsweep_step_nth [OF st_def h_def, of k t i] downsweep_step_nth [OF st_def h_def, of k t' i]
    by simp
qed

section \<open>The claims about \<^verbatim>\<open>parallel_maximum.cpp\<close>\<close>




text \<open>
  C8. Scenario A: on \<open>[456, 789, 123, 890, 234, 567, 345, 678]\<close> with \<open>n = 8\<close> the
  reduction with explicit barriers returns 890, prints 3 as the number of
  synchronisation steps, and the row it prints after level 0 is
  \<open>[789, 789, 890, 890, 567, 567, 678, 678]\<close>.
\<close>

theorem scenario_A_explicit_barriers:
  "map_option (\<lambda>r. (max_value r, sync_levels r, level_rows r ! 0))
     (parallel_max_explicit_barriers [456, 789, 123, 890, 234, 567, 345, 678] 8) =
   Some (890, 3, [789, 789, 890, 890, 567, 567, 678, 678])"
  by code_simp

text \<open>
  C10, as the code has it. Methods 2 and 4 take the array by non-const reference; every
  write goes to the working copy. A call on a non-empty array with a count \<open>n\<close> within
  its length and at most \<open>2 ^ 30\<close> returns, and the caller's array after the call is the
  array before the call.
\<close>

theorem caller_array_unchanged:
  assumes "a \<noteq> []" and "n \<le> length a" and "n \<le> 2 ^ 30"
  shows "map_option fst (parallel_max_tree_reduction a n) = Some a \<and>
         map_option caller_arr (parallel_max_explicit_barriers a n) = Some a"
  using assms
  by (simp add: parallel_max_tree_reduction_def parallel_max_explicit_barriers_def Let_def
      arr_tree_loop arr_barrier_levels)

theorem caller_array_unchanged_witness:
  "[5, 9, 2] \<noteq> ([] :: int32 list) \<and> 3 \<le> length [5, 9, 2 :: int32] \<and> (3 :: nat) \<le> 2 ^ 30 \<and>
   map_option fst (parallel_max_tree_reduction [5, 9, 2] 3) = Some [5, 9, 2] \<and>
   map_option caller_arr (parallel_max_explicit_barriers [5, 9, 2] 3) = Some [5, 9, 2]"
proof -
  have h1: "[5, 9, 2] \<noteq> ([] :: int32 list)" by simp
  have h2: "3 \<le> length [5, 9, 2 :: int32]" by simp
  have h3: "(3 :: nat) \<le> 2 ^ 30" by simp
  show ?thesis
    using h1 h2 h3 caller_array_unchanged [OF h1 h2 h3] by blast
qed

text \<open>
  The claim as the spec states it, for every input array, fails beyond \<open>2 ^ 30\<close>
  elements: called on an array of \<open>2 ^ 30 + 1\<close> elements with its length, neither
  method returns to its caller with the array as it was. The counter of their inner loop
  leaves the range of \<^verbatim>\<open>int\<close>, which is undefined in C++, so nothing is known of the
  caller's array after the call.
\<close>

theorem caller_array_counterexample:
  "replicate (2 ^ 30 + 1) (0 :: int32) \<noteq> [] \<and>
   2 ^ 30 + 1 \<le> length (replicate (2 ^ 30 + 1) (0 :: int32)) \<and>
   map_option fst (parallel_max_tree_reduction (replicate (2 ^ 30 + 1) 0) (2 ^ 30 + 1)) \<noteq>
     Some (replicate (2 ^ 30 + 1) 0) \<and>
   map_option caller_arr (parallel_max_explicit_barriers (replicate (2 ^ 30 + 1) 0) (2 ^ 30 + 1)) \<noteq>
     Some (replicate (2 ^ 30 + 1) 0)"
  by (simp add: parallel_max_tree_reduction_def parallel_max_explicit_barriers_def)

section \<open>The claims about \<^verbatim>\<open>prefix_sum_scan.cpp\<close>\<close>




text \<open>
  C3. The upsweep on a buffer \<open>t0\<close> of \<open>P = 2 ^ log_n\<close> cells. After level \<open>d\<close> (the
  levels \<open>0, \<dots>, d\<close> of the loop have run) the last cell of every block of
  \<open>2 ^ (d + 1)\<close> cells, \<open>buffer[i + stride - 1]\<close> for \<open>i\<close> a multiple of
  \<open>stride = 2 ^ (d + 1)\<close>, holds the sum of the cells of \<open>t0\<close> in that block. The
  whole upsweep continues from that state, and it leaves the sum of all \<open>P\<close> cells in
  \<open>buffer[P - 1]\<close>.
\<close>

theorem upsweep_level_invariant:
  assumes "length t0 = 2 ^ log_n" and "d < log_n" and "i < 2 ^ log_n" and "2 ^ (d + 1) dvd i"
  shows "fold (upsweep_level (2 ^ log_n)) [0..<Suc d] t0 ! (i + 2 ^ (d + 1) - 1) =
           (\<Sum>k = i..<i + 2 ^ (d + 1). t0 ! k) \<and>
         upsweep (2 ^ log_n) log_n t0 =
           fold (upsweep_level (2 ^ log_n)) [Suc d..<log_n] (fold (upsweep_level (2 ^ log_n)) [0..<Suc d] t0) \<and>
         upsweep (2 ^ log_n) log_n t0 ! (2 ^ log_n - 1) = (\<Sum>k = 0..<2 ^ log_n. t0 ! k)"
proof -
  have "(2 :: nat) ^ (d + 1) dvd 2 ^ log_n" using assms(2) by (intro le_imp_power_dvd) simp
  then have dP: "2 ^ (d + 1) dvd length t0" using assms(1) by simp
  have "up_inv t0 (Suc d) (fold (upsweep_level (2 ^ log_n)) [0..<Suc d] t0)"
    using assms(1,2) by (intro up_inv_upsweep) simp_all
  then have a: "fold (upsweep_level (2 ^ log_n)) [0..<Suc d] t0 ! (i + 2 ^ (d + 1) - 1) =
                range_sum t0 i (i + 2 ^ (d + 1))"
    using assms(1,3,4) dP by (intro up_inv_block) simp_all
  have "[0..<log_n] = [0..<Suc d] @ [Suc d..<log_n]"
    using assms(2) by (metis Suc_leI le0 upt_add_eq_append le_add_diff_inverse)
  then have b: "upsweep (2 ^ log_n) log_n t0 =
           fold (upsweep_level (2 ^ log_n)) [Suc d..<log_n] (fold (upsweep_level (2 ^ log_n)) [0..<Suc d] t0)"
    unfolding upsweep_def by (metis fold_append o_apply)
  obtain e where e: "log_n = Suc e" using assms(2) by (cases log_n) simp_all
  have "up_inv t0 (Suc e) (fold (upsweep_level (2 ^ log_n)) [0..<Suc e] t0)"
    using assms(1) e by (intro up_inv_upsweep) simp_all
  then have "fold (upsweep_level (2 ^ log_n)) [0..<Suc e] t0 ! (0 + 2 ^ (e + 1) - 1) =
             range_sum t0 0 (0 + 2 ^ (e + 1))"
    using assms(1) e by (intro up_inv_block) simp_all
  then have c: "upsweep (2 ^ log_n) log_n t0 ! (2 ^ log_n - 1) = range_sum t0 0 (2 ^ log_n)"
    using e by (simp add: upsweep_def)
  show ?thesis using a b c unfolding range_sum_def by blast
qed

theorem upsweep_level_invariant_witness:
  "length [12, 34, 21, 45, 23, 18, 36, 29 :: int32] = 2 ^ 3 \<and> (1 :: nat) < 3 \<and> (4 :: nat) < 2 ^ 3 \<and>
   (2 :: nat) ^ (1 + 1) dvd 4 \<and>
   fold (upsweep_level (2 ^ 3)) [0..<Suc 1] [12, 34, 21, 45, 23, 18, 36, 29] ! (4 + 2 ^ (1 + 1) - 1) =
     (\<Sum>k = 4..<4 + 2 ^ (1 + 1). [12, 34, 21, 45, 23, 18, 36, 29 :: int32] ! k) \<and>
   upsweep (2 ^ 3) 3 [12, 34, 21, 45, 23, 18, 36, 29] ! (2 ^ 3 - 1) =
     (\<Sum>k = 0..<2 ^ 3. [12, 34, 21, 45, 23, 18, 36, 29 :: int32] ! k)"
proof -
  have h1: "length [12, 34, 21, 45, 23, 18, 36, 29 :: int32] = 2 ^ 3" by simp
  have h2: "(1 :: nat) < 3" by simp
  have h3: "(4 :: nat) < 2 ^ 3" by simp
  have h4: "(2 :: nat) ^ (1 + 1) dvd 4" by simp
  show ?thesis
    using h1 h2 h3 h4 upsweep_level_invariant [OF h1 h2 h3 h4] by blast
qed

text \<open>
  C9. \<open>verify_arrays a b\<close> answers true exactly when the arrays have the same length and
  agree at every index. When they have the same length and differ, it answers false and
  the index it prints is the first index at which they differ. When the lengths differ
  it answers false and prints nothing. The loop only reads indices below the common
  length, and the function returns on every input.
\<close>

theorem verify_arrays_first_mismatch:
  "(fst (verify_arrays a b) \<longleftrightarrow> length a = length b \<and> (\<forall>i<length a. a ! i = b ! i)) \<and>
   (length a = length b \<and> a \<noteq> b \<longrightarrow>
      (\<exists>k<length a. verify_arrays a b = (False, Some (k, a ! k, b ! k)) \<and>
         a ! k \<noteq> b ! k \<and> (\<forall>j<k. a ! j = b ! j))) \<and>
   (length a \<noteq> length b \<longrightarrow> verify_arrays a b = (False, None))"
proof (cases "length a = length b")
  case False
  then show ?thesis by (simp add: verify_arrays_def)
next
  case True
  have v: "verify_arrays a b = verify_loop a b 0" using True by (simp add: verify_arrays_def)
  have r: "(verify_loop a b 0 = (True, None) \<and> (\<forall>j<length a. a ! j = b ! j)) \<or>
        (\<exists>k. 0 \<le> k \<and> k < length a \<and> verify_loop a b 0 = (False, Some (k, a ! k, b ! k)) \<and>
             a ! k \<noteq> b ! k \<and> (\<forall>j<k. a ! j = b ! j))"
    using True by (intro verify_loop_result) simp_all
  have eq: "a = b \<longleftrightarrow> (\<forall>i<length a. a ! i = b ! i)" using True by (auto intro: nth_equalityI)
  show ?thesis
  proof (cases "\<forall>j<length a. a ! j = b ! j")
    case all: True
    then have "verify_loop a b 0 = (True, None)" using r by auto
    then show ?thesis unfolding v using True all eq by simp
  next
    case some: False
    then obtain k where k: "k < length a" "verify_loop a b 0 = (False, Some (k, a ! k, b ! k))"
      "a ! k \<noteq> b ! k" "\<forall>j<k. a ! j = b ! j"
      using r by auto
    then show ?thesis unfolding v using True some by auto
  qed
qed

theorem verify_arrays_first_mismatch_witness:
  "length [1, 2, 3, 4 :: int32] = length [1, 2, 9, 8 :: int32] \<and> [1, 2, 3, 4] \<noteq> [1, 2, 9, 8 :: int32] \<and>
   (\<exists>k<length [1, 2, 3, 4 :: int32].
      verify_arrays [1, 2, 3, 4] [1, 2, 9, 8] = (False, Some (k, [1, 2, 3, 4] ! k, [1, 2, 9, 8] ! k)) \<and>
      [1, 2, 3, 4 :: int32] ! k \<noteq> [1, 2, 9, 8] ! k \<and> (\<forall>j<k. [1, 2, 3, 4 :: int32] ! j = [1, 2, 9, 8] ! j)) \<and>
   length [1, 2 :: int32] \<noteq> length [1 :: int32] \<and> verify_arrays [1, 2] [1] = (False, None) \<and>
   fst (verify_arrays [5, 6] [5, 6])"
proof -
  have h1: "length [1, 2, 3, 4 :: int32] = length [1, 2, 9, 8 :: int32] \<and> [1, 2, 3, 4] \<noteq> [1, 2, 9, 8 :: int32]"
    by simp
  have h2: "length [1, 2 :: int32] \<noteq> length [1 :: int32]" by simp
  have h3: "length [5, 6 :: int32] = length [5, 6 :: int32] \<and> (\<forall>i<length [5, 6 :: int32]. [5, 6 :: int32] ! i = [5, 6] ! i)"
    by simp
  show ?thesis
    using h1 h2 h3 verify_arrays_first_mismatch [of "[1, 2, 3, 4]" "[1, 2, 9, 8]"]
      verify_arrays_first_mismatch [of "[1, 2]" "[1]"] verify_arrays_first_mismatch [of "[5, 6]" "[5, 6]"]
    by blast
qed

section \<open>The claims about both programs\<close>




text \<open>
  C6. Within one level the iterations touch pairwise disjoint cells. Two different
  counter values of a tree reduction level with stride \<open>s\<close> (multiples of \<open>2 * s\<close>) touch
  disjoint sets \<open>{i, i + s}\<close>; two different counter values of an upsweep or downsweep
  level \<open>d\<close> (multiples of \<open>2 ^ (d + 1)\<close>) touch disjoint sets
  \<open>{i + 2 ^ d - 1, i + 2 ^ (d + 1) - 1}\<close>. These sets are all an iteration works on: it
  leaves every cell outside its set as it was, and what it puts into the cells of its set
  depends only on the cells of its set. So no write of one iteration meets a read or a
  write of another iteration of the same level.
\<close>

theorem iterations_touch_disjoint_cells:
  "(0 < stride \<and> i1 \<in> set (strided 0 n (2 * stride)) \<and> i2 \<in> set (strided 0 n (2 * stride)) \<and> i1 \<noteq> i2 \<longrightarrow>
      tree_touched stride i1 \<inter> tree_touched stride i2 = {}) \<and>
   (j1 \<in> set (strided 0 n (2 ^ (d + 1))) \<and> j2 \<in> set (strided 0 n (2 ^ (d + 1))) \<and> j1 \<noteq> j2 \<longrightarrow>
      scan_touched d j1 \<inter> scan_touched d j2 = {}) \<and>
   (k \<notin> tree_touched stride i \<longrightarrow> temp (tree_step n stride i s) ! k = temp s ! k) \<and>
   (k \<notin> scan_touched d i \<longrightarrow> upsweep_step d i t ! k = t ! k \<and> downsweep_step d i t ! k = t ! k) \<and>
   (0 < stride \<and> n \<le> length (temp s) \<and> length (temp s) = length (temp s') \<and>
    (\<forall>q\<in>tree_touched stride i. temp s ! q = temp s' ! q) \<and> c \<in> tree_touched stride i \<longrightarrow>
      temp (tree_step n stride i s) ! c = temp (tree_step n stride i s') ! c) \<and>
   (i + 2 ^ (d + 1) \<le> length t \<and> length t = length t' \<and>
    (\<forall>q\<in>scan_touched d i. t ! q = t' ! q) \<and> c \<in> scan_touched d i \<longrightarrow>
      upsweep_step d i t ! c = upsweep_step d i t' ! c \<and>
      downsweep_step d i t ! c = downsweep_step d i t' ! c)"
proof (intro conjI impI)
  assume "0 < stride \<and> i1 \<in> set (strided 0 n (2 * stride)) \<and> i2 \<in> set (strided 0 n (2 * stride)) \<and> i1 \<noteq> i2"
  then show "tree_touched stride i1 \<inter> tree_touched stride i2 = {}"
    by (intro tree_touched_disjoint [of stride i1 n i2]) simp_all
next
  assume "j1 \<in> set (strided 0 n (2 ^ (d + 1))) \<and> j2 \<in> set (strided 0 n (2 ^ (d + 1))) \<and> j1 \<noteq> j2"
  then show "scan_touched d j1 \<inter> scan_touched d j2 = {}"
    by (intro scan_touched_disjoint [of j1 n d j2]) simp_all
next
  assume "k \<notin> tree_touched stride i"
  then show "temp (tree_step n stride i s) ! k = temp s ! k" by (rule tree_step_writes)
next
  assume "k \<notin> scan_touched d i"
  then show "upsweep_step d i t ! k = t ! k" by (rule upsweep_step_writes)
next
  assume "k \<notin> scan_touched d i"
  then show "downsweep_step d i t ! k = t ! k" by (rule downsweep_step_writes)
next
  assume "0 < stride \<and> n \<le> length (temp s) \<and> length (temp s) = length (temp s') \<and>
    (\<forall>q\<in>tree_touched stride i. temp s ! q = temp s' ! q) \<and> c \<in> tree_touched stride i"
  then show "temp (tree_step n stride i s) ! c = temp (tree_step n stride i s') ! c"
    by (intro tree_step_reads) simp_all
next
  assume "i + 2 ^ (d + 1) \<le> length t \<and> length t = length t' \<and>
    (\<forall>q\<in>scan_touched d i. t ! q = t' ! q) \<and> c \<in> scan_touched d i"
  then show "upsweep_step d i t ! c = upsweep_step d i t' ! c"
    by (intro upsweep_step_reads) simp_all
next
  assume "i + 2 ^ (d + 1) \<le> length t \<and> length t = length t' \<and>
    (\<forall>q\<in>scan_touched d i. t ! q = t' ! q) \<and> c \<in> scan_touched d i"
  then show "downsweep_step d i t ! c = downsweep_step d i t' ! c"
    by (intro downsweep_step_reads) simp_all
qed

theorem iterations_touch_disjoint_cells_witness:
  "(0 :: nat) < 2 \<and> 0 \<in> set (strided 0 8 (2 * 2)) \<and> 4 \<in> set (strided 0 8 (2 * 2)) \<and> (0 :: nat) \<noteq> 4 \<and>
   tree_touched 2 0 \<inter> tree_touched 2 4 = {} \<and>
   0 \<in> set (strided 0 8 (2 ^ (1 + 1))) \<and> 4 \<in> set (strided 0 8 (2 ^ (1 + 1))) \<and>
   scan_touched 1 0 \<inter> scan_touched 1 4 = {} \<and>
   5 \<notin> tree_touched 2 0 \<and>
   temp (tree_step 8 2 0 \<lparr>arr = [], temp = [3, 1, 4, 1, 5, 9, 2, 6]\<rparr>) ! 5 =
     temp \<lparr>arr = [], temp = [3, 1, 4, 1, 5, 9, 2, 6]\<rparr> ! 5 \<and>
   5 \<notin> scan_touched 1 0 \<and>
   upsweep_step 1 0 [3, 1, 4, 1, 5, 9, 2, 6] ! 5 = [3, 1, 4, 1, 5, 9, 2, 6] ! 5 \<and>
   downsweep_step 1 0 [3, 1, 4, 1, 5, 9, 2, 6] ! 5 = [3, 1, 4, 1, 5, 9, 2, 6] ! 5 \<and>
   0 \<in> tree_touched 2 0 \<and>
   temp (tree_step 8 2 0 \<lparr>arr = [], temp = [3, 1, 4, 1, 5, 9, 2, 6]\<rparr>) ! 0 =
     temp (tree_step 8 2 0 \<lparr>arr = [], temp = [3, 7, 4, 7, 7, 7, 7, 7]\<rparr>) ! 0 \<and>
   3 \<in> scan_touched 1 0 \<and>
   upsweep_step 1 0 [3, 1, 4, 1, 5, 9, 2, 6] ! 3 = upsweep_step 1 0 [3, 1, 4, 1, 0, 0, 0, 0] ! 3 \<and>
   downsweep_step 1 0 [3, 1, 4, 1, 5, 9, 2, 6] ! 3 = downsweep_step 1 0 [3, 1, 4, 1, 0, 0, 0, 0] ! 3"
proof -
  have h1: "(0 :: nat) < 2 \<and> 0 \<in> set (strided 0 8 (2 * 2)) \<and> 4 \<in> set (strided 0 8 (2 * 2)) \<and> (0 :: nat) \<noteq> 4"
    by code_simp
  have h2: "0 \<in> set (strided 0 8 (2 ^ (1 + 1))) \<and> 4 \<in> set (strided 0 8 (2 ^ (1 + 1))) \<and> (0 :: nat) \<noteq> 4"
    by code_simp
  have h3: "5 \<notin> tree_touched 2 0" by (simp add: tree_touched_def)
  have h4: "5 \<notin> scan_touched 1 0" by (simp add: scan_touched_def)
  have h5: "(0 :: nat) < 2 \<and> 8 \<le> length (temp \<lparr>arr = [], temp = [3, 1, 4, 1, 5, 9, 2, 6]\<rparr>) \<and>
            length (temp \<lparr>arr = [], temp = [3, 1, 4, 1, 5, 9, 2, 6]\<rparr>) =
            length (temp \<lparr>arr = [], temp = [3, 7, 4, 7, 7, 7, 7, 7]\<rparr>) \<and>
            (\<forall>q\<in>tree_touched 2 0. temp \<lparr>arr = [], temp = [3, 1, 4, 1, 5, 9, 2, 6]\<rparr> ! q =
               temp \<lparr>arr = [], temp = [3, 7, 4, 7, 7, 7, 7, 7]\<rparr> ! q) \<and> 0 \<in> tree_touched 2 0"
    by (simp add: tree_touched_def)
  have h6: "0 + 2 ^ (1 + 1) \<le> length [3, 1, 4, 1, 5, 9, 2, 6 :: int32] \<and>
            length [3, 1, 4, 1, 5, 9, 2, 6 :: int32] = length [3, 1, 4, 1, 0, 0, 0, 0 :: int32] \<and>
            (\<forall>q\<in>scan_touched 1 0. [3, 1, 4, 1, 5, 9, 2, 6 :: int32] ! q = [3, 1, 4, 1, 0, 0, 0, 0] ! q) \<and>
            3 \<in> scan_touched 1 0"
    by (simp add: scan_touched_def)
  show ?thesis
    using h1 h2 h3 h4 h5 h6
      iterations_touch_disjoint_cells [of 2 0 8 4 0 1 4 5 0 "\<lparr>arr = [], temp = [3, 1, 4, 1, 5, 9, 2, 6]\<rparr>"
        "[3, 1, 4, 1, 5, 9, 2, 6]" "\<lparr>arr = [], temp = [3, 7, 4, 7, 7, 7, 7, 7]\<rparr>" 0 "[3, 1, 4, 1, 0, 0, 0, 0]"]
      iterations_touch_disjoint_cells [of 2 0 8 4 0 1 4 5 0 "\<lparr>arr = [], temp = [3, 1, 4, 1, 5, 9, 2, 6]\<rparr>"
        "[3, 1, 4, 1, 5, 9, 2, 6]" "\<lparr>arr = [], temp = [3, 7, 4, 7, 7, 7, 7, 7]\<rparr>" 3 "[3, 1, 4, 1, 0, 0, 0, 0]"]
    by blast
qed

text \<open>
  C4, as the code has it. For every \<open>n\<close> with \<open>1 \<le> n \<le> 2 ^ 30\<close> the reduction with
  explicit barriers prints \<open>\<lceil>log\<^sub>2 n\<rceil>\<close> as its number of synchronisation steps. For
  every array of \<open>N\<close> elements, \<open>1 \<le> N \<le> 2 ^ 30\<close>, the Blelloch scan prints the padded size
  \<open>2 ^ \<lceil>log\<^sub>2 N\<rceil>\<close>, \<open>\<lceil>log\<^sub>2 N\<rceil>\<close> levels and \<open>2 * \<lceil>log\<^sub>2 N\<rceil>\<close> synchronisation
  steps. For 1000 elements these are 10 steps for the reduction, and padded size 1024
  with 20 steps for the scan.
\<close>

theorem level_counts_are_ceil_log2:
  "(1 \<le> n \<and> n \<le> length a \<and> n \<le> 2 ^ 30 \<longrightarrow>
      map_option sync_levels (parallel_max_explicit_barriers a n) = Some (nat \<lceil>log 2 (real n)\<rceil>)) \<and>
   (1 \<le> length S \<and> length S \<le> 2 ^ 30 \<longrightarrow>
      map_sum id fst (parallel_prefix_sum_blelloch S) =
        Inr \<lparr>padded = 2 ^ nat \<lceil>log 2 (real (length S))\<rceil>, levels = nat \<lceil>log 2 (real (length S))\<rceil>,
             sync_steps = 2 * nat \<lceil>log 2 (real (length S))\<rceil>\<rparr>) \<and>
   (length a = 1000 \<longrightarrow> map_option sync_levels (parallel_max_explicit_barriers a 1000) = Some 10) \<and>
   (length S = 1000 \<longrightarrow>
      map_sum id fst (parallel_prefix_sum_blelloch S) = Inr \<lparr>padded = 1024, levels = 10, sync_steps = 20\<rparr>)"
proof -
  have c: "ceillog2 m = nat \<lceil>log 2 (real m)\<rceil>" if "1 \<le> m" for m
    using that by (simp add: ceillog2_def)
  have k: "ceillog2 1000 = 10" by (rule ceillog2_eqI) simp_all
  have e: "map_option sync_levels (parallel_max_explicit_barriers a m) = Some (ceillog2 m)"
    if "1 \<le> m \<and> m \<le> length a \<and> m \<le> 2 ^ 30" for m
  proof -
    have m: "0 < m" "m \<le> length a" "m \<le> 2 ^ 30" using that by linarith+
    obtain r where "parallel_max_explicit_barriers a m = Some r" "sync_levels r = ceillog2 m"
      using parallel_max_explicit_barriers_is_max [OF m] by blast
    then show ?thesis by simp
  qed
  have b: "map_sum id fst (parallel_prefix_sum_blelloch S) =
        Inr \<lparr>padded = 2 ^ ceillog2 (length S), levels = ceillog2 (length S), sync_steps = 2 * ceillog2 (length S)\<rparr>"
    if h: "1 \<le> length S \<and> length S \<le> 2 ^ 30"
  proof -
    have "0 < length S" using h by linarith
    moreover have "length S \<le> 2 ^ 30" using h by blast
    ultimately show ?thesis by (simp add: blelloch_in_range)
  qed
  have p1: "map_option sync_levels (parallel_max_explicit_barriers a n) = Some (nat \<lceil>log 2 (real n)\<rceil>)"
    if "1 \<le> n \<and> n \<le> length a \<and> n \<le> 2 ^ 30"
    using e [OF that] c [of n] that by simp
  have p2: "map_sum id fst (parallel_prefix_sum_blelloch S) =
        Inr \<lparr>padded = 2 ^ nat \<lceil>log 2 (real (length S))\<rceil>, levels = nat \<lceil>log 2 (real (length S))\<rceil>,
             sync_steps = 2 * nat \<lceil>log 2 (real (length S))\<rceil>\<rparr>"
    if "1 \<le> length S \<and> length S \<le> 2 ^ 30"
    using b [OF that] c [of "length S"] that by simp
  have p3: "map_option sync_levels (parallel_max_explicit_barriers a 1000) = Some 10" if "length a = 1000"
    using e [of 1000] that k by simp
  have p4: "map_sum id fst (parallel_prefix_sum_blelloch S) = Inr \<lparr>padded = 1024, levels = 10, sync_steps = 20\<rparr>"
    if "length S = 1000"
    using b that k by simp
  show ?thesis using p1 p2 p3 p4 by blast
qed

theorem level_counts_are_ceil_log2_witness:
  "(1 :: nat) \<le> 1000 \<and> 1000 \<le> length (replicate 1000 (7 :: int32)) \<and> (1000 :: nat) \<le> 2 ^ 30 \<and>
   length (replicate 1000 (7 :: int32)) \<le> 2 ^ 30 \<and>
   map_option sync_levels (parallel_max_explicit_barriers (replicate 1000 7) 1000) = Some 10 \<and>
   map_option sync_levels (parallel_max_explicit_barriers (replicate 1000 7) 1000) =
     Some (nat \<lceil>log 2 (real (1000 :: nat))\<rceil>) \<and>
   map_sum id fst (parallel_prefix_sum_blelloch (replicate 1000 7)) =
     Inr \<lparr>padded = 1024, levels = 10, sync_steps = 20\<rparr>"
proof -
  have h1: "(1 :: nat) \<le> 1000 \<and> 1000 \<le> length (replicate 1000 (7 :: int32)) \<and> (1000 :: nat) \<le> 2 ^ 30"
    by simp
  have h2: "1 \<le> length (replicate 1000 (7 :: int32)) \<and> length (replicate 1000 (7 :: int32)) \<le> 2 ^ 30" by simp
  have h3: "length (replicate 1000 (7 :: int32)) = 1000" by simp
  show ?thesis
    using h1 h2 h3 level_counts_are_ceil_log2 [of 1000 "replicate 1000 7" "replicate 1000 7"] by blast
qed

text \<open>
  The claim as the spec states it, for every \<open>N \<ge> 1\<close>, fails beyond \<open>2 ^ 30\<close> elements.
  For \<open>N = 2 ^ 30 + 2\<close> the scan fails while it builds its buffer, before it prints
  anything, so it reports no \<open>2 * \<lceil>log\<^sub>2 N\<rceil> = 62\<close>. For \<open>N = 2 ^ 31 - 1\<close> the first
  pass of the halving loop of the reduction computes \<^verbatim>\<open>temp_n + 1\<close>, which leaves the
  range of \<^verbatim>\<open>int\<close>, so the reduction reports no \<open>\<lceil>log\<^sub>2 N\<rceil> = 31\<close>.
\<close>

theorem level_counts_counterexample:
  "(1 :: nat) \<le> 2 ^ 30 + 2 \<and> 2 * ceillog2 (2 ^ 30 + 2) = 62 \<and>
   map_sum id (sync_steps \<circ> fst) (parallel_prefix_sum_blelloch (replicate (2 ^ 30 + 2) 0)) \<noteq> Inr 62 \<and>
   (1 :: nat) \<le> 2 ^ 31 - 1 \<and> ceillog2 (2 ^ 31 - 1) = 31 \<and>
   map_option sync_levels (parallel_max_explicit_barriers (replicate (2 ^ 31 - 1) 0) (2 ^ 31 - 1)) \<noteq> Some 31"
proof -
  have "parallel_prefix_sum_blelloch (replicate (2 ^ 30 + 2) 0) = Inl Length_error"
    by (rule blelloch_length_error) simp_all
  moreover have "ceillog2 (2 ^ 30 + 2) = 31" by (rule ceillog2_eqI) simp_all
  moreover have "ceillog2 (2 ^ 31 - 1) = 31" by (rule ceillog2_eqI) simp_all
  moreover have "parallel_max_explicit_barriers (replicate (2 ^ 31 - 1) 0) (2 ^ 31 - 1) = None"
    by (simp add: parallel_max_explicit_barriers_def)
  ultimately show ?thesis by simp
qed

text \<open>
  C5, as the code has it. The scan has no overflow check and no overflow failure of its
  own. The arrays whose padded size \<open>2 ^ \<lceil>log\<^sub>2 N\<rceil>\<close> fits an \<^verbatim>\<open>int\<close> are those of at most
  \<open>2 ^ 30\<close> elements, and for them the scan returns without a failure. For
  \<open>2 ^ 30 < N < 2 ^ 31\<close> the padded size \<^verbatim>\<open>1 << 31\<close> is a negative \<^verbatim>\<open>int\<close> and the
  scan fails with the length error of the buffer's constructor, which is raised before
  anything is allocated or computed.
\<close>

theorem blelloch_size_failures:
  "(0 < N \<longrightarrow> ((2 :: nat) ^ ceillog2 N \<le> 2 ^ 31 - 1 \<longleftrightarrow> N \<le> 2 ^ 30)) \<and>
   (0 < length S \<and> length S \<le> 2 ^ 30 \<longrightarrow>
      parallel_prefix_sum_blelloch S =
        Inr (\<lparr>padded = 2 ^ ceillog2 (length S), levels = ceillog2 (length S),
              sync_steps = 2 * ceillog2 (length S)\<rparr>, sequential_prefix_sum S)) \<and>
   (2 ^ 30 < length S \<and> length S < 2 ^ 31 \<longrightarrow> parallel_prefix_sum_blelloch S = Inl Length_error)"
proof -
  have a: "(2 :: nat) ^ ceillog2 N \<le> 2 ^ 31 - 1 \<longleftrightarrow> N \<le> 2 ^ 30" if N: "0 < N"
  proof -
    have "(2 :: nat) ^ ceillog2 N \<le> 2 ^ 31 - 1 \<longleftrightarrow> (2 :: nat) ^ ceillog2 N < 2 ^ 31" by auto
    also have "\<dots> \<longleftrightarrow> ceillog2 N < 31" by (rule power_strict_increasing_iff) simp
    also have "\<dots> \<longleftrightarrow> ceillog2 N \<le> 30" by linarith
    also have "\<dots> \<longleftrightarrow> N \<le> 2 ^ 30" using N by (rule ceillog2_le_iff)
    finally show ?thesis .
  qed
  have b: "parallel_prefix_sum_blelloch S =
        Inr (\<lparr>padded = 2 ^ ceillog2 (length S), levels = ceillog2 (length S),
              sync_steps = 2 * ceillog2 (length S)\<rparr>, sequential_prefix_sum S)"
    if "0 < length S \<and> length S \<le> 2 ^ 30"
    using that by (intro blelloch_in_range) simp_all
  have c: "parallel_prefix_sum_blelloch S = Inl Length_error" if "2 ^ 30 < length S \<and> length S < 2 ^ 31"
    using that by (intro blelloch_length_error) simp_all
  show ?thesis using a b c by blast
qed

theorem blelloch_size_failures_witness:
  "(0 :: nat) < 1000 \<and> ((2 :: nat) ^ ceillog2 1000 \<le> 2 ^ 31 - 1 \<longleftrightarrow> (1000 :: nat) \<le> 2 ^ 30) \<and>
   0 < length [5, 6, 7 :: int32] \<and> length [5, 6, 7 :: int32] \<le> 2 ^ 30 \<and>
   parallel_prefix_sum_blelloch [5, 6, 7] =
     Inr (\<lparr>padded = 2 ^ ceillog2 (length [5, 6, 7 :: int32]), levels = ceillog2 (length [5, 6, 7 :: int32]),
           sync_steps = 2 * ceillog2 (length [5, 6, 7 :: int32])\<rparr>, sequential_prefix_sum [5, 6, 7]) \<and>
   2 ^ 30 < length (replicate (2 ^ 30 + 5) (0 :: int32)) \<and> length (replicate (2 ^ 30 + 5) (0 :: int32)) < 2 ^ 31 \<and>
   parallel_prefix_sum_blelloch (replicate (2 ^ 30 + 5) 0) = Inl Length_error"
proof -
  have h1: "(0 :: nat) < 1000" by simp
  have h2: "0 < length [5, 6, 7 :: int32] \<and> length [5, 6, 7 :: int32] \<le> 2 ^ 30" by simp
  have h3: "2 ^ 30 < length (replicate (2 ^ 30 + 5) (0 :: int32)) \<and>
            length (replicate (2 ^ 30 + 5) (0 :: int32)) < 2 ^ 31" by simp
  show ?thesis
    using h1 h2 h3 blelloch_size_failures [of 1000 "[5, 6, 7]"]
      blelloch_size_failures [of 1000 "replicate (2 ^ 30 + 5) 0"] by blast
qed

text \<open>
  The claim as the spec states it fails: an array of \<open>2 ^ 32 + 1\<close> elements has a padded
  size of \<open>2 ^ 33\<close>, far beyond the largest \<^verbatim>\<open>int\<close>, and no failure is raised.
  \<^verbatim>\<open>int n = arr.size()\<close> keeps the low 32 bits of the size, which is 1, and the scan
  returns the scan of the first element alone.
\<close>

theorem blelloch_overflow_counterexample:
  "(2 :: nat) ^ 31 - 1 < 2 ^ ceillog2 (length (replicate (2 ^ 32 + 1) (0 :: int32))) \<and>
   parallel_prefix_sum_blelloch (replicate (2 ^ 32 + 1) 0) =
     Inr (\<lparr>padded = 1, levels = 0, sync_steps = 0\<rparr>, [0])"
proof -
  have "ceillog2 (2 ^ 32 + 1) = 33" by (rule ceillog2_eqI) simp_all
  then have a: "(2 :: nat) ^ 31 - 1 < 2 ^ ceillog2 (length (replicate (2 ^ 32 + 1) (0 :: int32)))" by simp
  have s: "sint (word_of_nat (length (replicate (2 ^ 32 + 1) (0 :: int32))) :: int32) = 1" by simp
  have b: "parallel_prefix_sum_blelloch (replicate (2 ^ 32 + 1) 0) =
     Inr (\<lparr>padded = 1, levels = 0, sync_steps = 0\<rparr>, [0])"
    unfolding parallel_prefix_sum_blelloch_def s Let_def
    by (simp add: pad_copy_def upsweep_def downsweep_def to_inclusive_def)
  show ?thesis using a b by blast
qed

end
